theory Spec2Isabelle
  imports Main "HOL-Library.Sublist"
begin

section \<open>A shallow embedding of the Fortran namelist formatter\<close>

text \<open>
  The development follows \<^verbatim>\<open>nml_formatter.py\<close>.  A Python \<^verbatim>\<open>str\<close> is a
  \<^typ>\<open>string\<close>: one \<^typ>\<open>char\<close> per code point, for the code points below 256.
  Inside that range the string methods are modelled as CPython defines them
  (\<^verbatim>\<open>isspace\<close>, \<^verbatim>\<open>splitlines\<close>, \<^verbatim>\<open>lower\<close>, \<^verbatim>\<open>strip\<close>, \<^verbatim>\<open>split\<close>,
  \<^verbatim>\<open>replace\<close>, \<^verbatim>\<open>join\<close>, \<^verbatim>\<open>startswith\<close>).  Python integers are \<^typ>\<open>int\<close>,
  the \<^verbatim>\<open>ValueError\<close> of the parser is a value of a sum type, and the file
  that \<^verbatim>\<open>format_nml\<close> reads is the argument \<open>content\<close>.
\<close>

subsection \<open>Python string primitives\<close>

text \<open>\<^verbatim>\<open>str.isspace\<close> on one character, which is also the class \<^verbatim>\<open>\s\<close> of
  \<^verbatim>\<open>re\<close> on a \<^verbatim>\<open>str\<close> pattern: TAB, LF, VT, FF, CR, FS, GS, RS, US, space,
  NEL and the no-break space.\<close>

definition is_space :: "char \<Rightarrow> bool" where
  "is_space c \<longleftrightarrow>
     c \<in> {CHR 0x09, CHR 0x0A, CHR 0x0B, CHR 0x0C, CHR 0x0D, CHR 0x1C, CHR 0x1D,
          CHR 0x1E, CHR 0x1F, CHR 0x20, CHR 0x85, CHR 0xA0}"

text \<open>The line boundaries of \<^verbatim>\<open>str.splitlines\<close>: LF, VT, FF, CR, FS, GS, RS and
  NEL (the pair CR LF counts once).\<close>

definition is_linebreak :: "char \<Rightarrow> bool" where
  "is_linebreak c \<longleftrightarrow>
     c \<in> {CHR 0x0A, CHR 0x0B, CHR 0x0C, CHR 0x0D, CHR 0x1C, CHR 0x1D, CHR 0x1E, CHR 0x85}"

text \<open>\<^verbatim>\<open>s.lstrip(chars)\<close>, \<^verbatim>\<open>s.rstrip(chars)\<close> and \<^verbatim>\<open>s.strip(chars)\<close>, the
  character set given as a predicate; without an argument the set is
  \<^const>\<open>is_space\<close>.\<close>

definition lstrip_of :: "(char \<Rightarrow> bool) \<Rightarrow> string \<Rightarrow> string" where
  "lstrip_of P s = dropWhile P s"

definition rstrip_of :: "(char \<Rightarrow> bool) \<Rightarrow> string \<Rightarrow> string" where
  "rstrip_of P s = rev (dropWhile P (rev s))"

definition strip_of :: "(char \<Rightarrow> bool) \<Rightarrow> string \<Rightarrow> string" where
  "strip_of P s = rstrip_of P (lstrip_of P s)"

abbreviation rstrip :: "string \<Rightarrow> string" where
  "rstrip \<equiv> rstrip_of is_space"

abbreviation strip :: "string \<Rightarrow> string" where
  "strip \<equiv> strip_of is_space"

text \<open>\<^verbatim>\<open>str.splitlines()\<close>: the lines without their terminators; a terminator
  at the very end opens no further line.\<close>

fun splitlines_from :: "string \<Rightarrow> string \<Rightarrow> string list" where
  "splitlines_from cur [] = (if cur = [] then [] else [rev cur])"
| "splitlines_from cur (c # s) =
     (if c = CHR 0x0D then
        (case s of
           d # s' \<Rightarrow> if d = CHR 0x0A then rev cur # splitlines_from [] s'
                     else rev cur # splitlines_from [] s
         | [] \<Rightarrow> rev cur # splitlines_from [] s)
      else if is_linebreak c then rev cur # splitlines_from [] s
      else splitlines_from (c # cur) s)"

definition splitlines :: "string \<Rightarrow> string list" where
  "splitlines s = splitlines_from [] s"

text \<open>\<^verbatim>\<open>s.split(sep)\<close> for a separator of one character, and
  \<^verbatim>\<open>s.split(sep, 1)\<close> at the first occurrence of a character known to occur.\<close>

fun split_on :: "char \<Rightarrow> string \<Rightarrow> string list" where
  "split_on sep [] = [[]]"
| "split_on sep (c # s) =
     (if c = sep then [] # split_on sep s
      else (case split_on sep s of
              w # ws \<Rightarrow> (c # w) # ws
            | [] \<Rightarrow> [[c]]))"

definition split_first :: "char \<Rightarrow> string \<Rightarrow> string \<times> string" where
  "split_first sep s = (takeWhile (\<lambda>c. c \<noteq> sep) s, tl (dropWhile (\<lambda>c. c \<noteq> sep) s))"

text \<open>\<^verbatim>\<open>sep.join(items)\<close>.\<close>

fun join :: "string \<Rightarrow> string list \<Rightarrow> string" where
  "join sep [] = []"
| "join sep [w] = w"
| "join sep (w # ws) = w @ sep @ join sep ws"

text \<open>\<^verbatim>\<open>s.replace(old, new)\<close>: the occurrences of \<open>old\<close> are found from the
  left, and the search goes on after each replaced occurrence.  For an
  empty \<open>old\<close> Python puts \<open>new\<close> before every character and at the end.\<close>

function replace :: "string \<Rightarrow> string \<Rightarrow> string \<Rightarrow> string" where
  "replace old new s =
     (if old = [] then new @ concat (map (\<lambda>c. c # new) s)
      else if s = [] then []
      else if prefix old s then new @ replace old new (drop (length old) s)
      else hd s # replace old new (tl s))"
  by pat_completeness auto
termination
  by (relation "measure (\<lambda>(old, new, s). length s)") auto

declare replace.simps [simp del]

text \<open>\<^verbatim>\<open>str.lower\<close> below code point 256: the letters A to Z and the
  capital letters of Latin-1 (0xC0 to 0xDE without the multiplication sign
  0xD7) move up by 32.\<close>

definition lower_char :: "char \<Rightarrow> char" where
  "lower_char c =
     (let n = (of_char c :: nat)
      in if (65 \<le> n \<and> n \<le> 90) \<or> (192 \<le> n \<and> n \<le> 222 \<and> n \<noteq> 215)
         then char_of (n + 32) else c)"

definition lower :: "string \<Rightarrow> string" where
  "lower s = map lower_char s"

text \<open>\<^verbatim>\<open>' ' * n\<close>: empty for a negative \<open>n\<close>.\<close>

definition spaces :: "int \<Rightarrow> string" where
  "spaces n = replicate (nat n) (CHR '' '')"

subsection \<open>The line parser\<close>

datatype error = ValueError

text \<open>
  \<^verbatim>\<open>re.match(r"\s*,?\s*([^\s=]+)\s*=+(.*)", value_part)\<close>.  Every quantifier
  of the pattern is greedy and the engine backtracks, so the first match in
  its order is: all the leading white space; then the comma, when there is
  one and the rest matches after it, and otherwise no comma (the key then
  starts at that comma); the key is the longest run of characters that are
  neither white space nor \<open>=\<close>, since a shorter key would have to be followed
  by white space or \<open>=\<close>; all the white space after it; all the \<open>=\<close>
  signs; group 2 is the rest up to the first line feed, which \<open>.\<close> does not
  match.  \<open>match_from\<close> is the part of the pattern from the key on.
\<close>

definition is_key_char :: "char \<Rightarrow> bool" where
  "is_key_char c \<longleftrightarrow> \<not> is_space c \<and> c \<noteq> CHR ''=''"

definition match_from :: "string \<Rightarrow> (string \<times> string) option" where
  "match_from s =
     (let key = takeWhile is_key_char s;
          r = dropWhile is_space (dropWhile is_key_char s)
      in if key \<noteq> [] \<and> r \<noteq> [] \<and> hd r = CHR ''=''
         then Some (key, takeWhile (\<lambda>c. c \<noteq> CHR 0x0A) (dropWhile (\<lambda>c. c = CHR ''='') r))
         else None)"

definition eq_match :: "string \<Rightarrow> (string \<times> string) option" where
  "eq_match value_part =
     (let s = dropWhile is_space value_part
      in if s \<noteq> [] \<and> hd s = CHR '',''
         then (case match_from (dropWhile is_space (tl s)) of
                 Some m \<Rightarrow> Some m
               | None \<Rightarrow> match_from s)
         else match_from s)"

definition parse_key_val_pair :: "string \<Rightarrow> error + (string \<times> string \<times> string)" where
  "parse_key_val_pair line =
     (let (value_part, comment) =
            (if CHR ''!'' \<in> set line
             then (fst (split_first (CHR ''!'') line),
                   '' ! '' @ strip (snd (split_first (CHR ''!'') line)))
             else (line, ''''))
      in case eq_match value_part of
           Some (key, g2) \<Rightarrow>
             Inr (key, strip (rstrip_of (\<lambda>c. c \<in> {CHR '','', CHR '' '', CHR 0x09}) g2), comment)
         | None \<Rightarrow> Inl ValueError)"

subsection \<open>The key scanner\<close>

fun longest_key_loop :: "int \<Rightarrow> string list \<Rightarrow> int" where
  "longest_key_loop longest_key [] = longest_key"
| "longest_key_loop longest_key (line # rest) =
     (case parse_key_val_pair line of
        Inl ValueError \<Rightarrow> longest_key_loop longest_key rest
      | Inr (key, _, _) \<Rightarrow>
          longest_key_loop
            (if int (length key) > longest_key then int (length key) else longest_key) rest)"

definition find_longest_key :: "string \<Rightarrow> int" where
  "find_longest_key content = longest_key_loop (- 1) (splitlines content)"

subsection \<open>The line formatter\<close>

definition normalize_list :: "string \<Rightarrow> string" where
  "normalize_list v =
     (if CHR '','' \<in> set v then join '', '' (map strip (split_on (CHR '','') v)) else v)"

definition normalize_bools :: "string \<Rightarrow> string" where
  "normalize_bools v =
     replace ''.FALSE.'' ''.false.''
       (replace ''.f.'' ''.false.''
         (replace ''.TRUE.'' ''.true.''
           (replace ''.t.'' ''.true.'' v)))"

definition normalize_quotes :: "string \<Rightarrow> string" where
  "normalize_quotes v = replace [CHR 0x22] [CHR 0x27] v"

definition format_line :: "string \<Rightarrow> int \<Rightarrow> int \<Rightarrow> bool \<Rightarrow> bool \<Rightarrow> error + string" where
  "format_line line align_eq_to block_indent trailing_comma keep_comments =
     (case parse_key_val_pair line of
        Inl e \<Rightarrow> Inl e
      | Inr (key, value, comment) \<Rightarrow>
          (let value = normalize_quotes (normalize_bools (normalize_list value));
               eq_offset = max (align_eq_to - int (length key) - 1) 1;
               out_comment = (if keep_comments then comment else '''');
               out_comma = (if trailing_comma then '','' else '''')
           in Inr (spaces block_indent @ key @ spaces eq_offset @ '' = '' @ value
                   @ out_comma @ out_comment)))"

subsection \<open>The document formatter\<close>

text \<open>The body of the loop of \<^verbatim>\<open>format_nml\<close>: the state is the flag
  \<^verbatim>\<open>in_block\<close> and the list \<^verbatim>\<open>mod_lines\<close>, to which the body appends.\<close>

definition starts_with :: "string \<Rightarrow> char \<Rightarrow> bool" where
  "starts_with s c \<longleftrightarrow> s \<noteq> [] \<and> hd s = c"

definition format_step ::
  "int \<Rightarrow> int \<Rightarrow> bool \<Rightarrow> bool \<Rightarrow> bool \<Rightarrow> bool \<times> string list \<Rightarrow> string
     \<Rightarrow> error + (bool \<times> string list)" where
  "format_step align_eq_to block_indent trailing_comma keep_comments keep_whitelines st raw =
     (let in_block = fst st; mod_lines = snd st;
          line = rstrip (strip_of (\<lambda>c. c = CHR 0x0A) raw)
      in if starts_with (strip line) (CHR ''&'') then
           Inr (True, mod_lines @ [lower (strip line)])
         else if strip line = ''/'' then
           Inr (False, mod_lines @ [strip line] @ [''''])
         else if line = '''' then
           (if keep_whitelines \<and> in_block then Inr (in_block, mod_lines @ [line])
            else Inr (in_block, mod_lines))
         else if starts_with (strip line) (CHR ''!'') then
           (if keep_comments then
              (let indent = (if \<not> in_block then '''' else spaces block_indent)
               in Inr (in_block, mod_lines @ [indent @ ''! '' @ strip (tl (strip line))]))
            else Inr (in_block, mod_lines))
         else
           (case format_line line align_eq_to block_indent trailing_comma keep_comments of
              Inl e \<Rightarrow> Inl e
            | Inr s \<Rightarrow> Inr (in_block, mod_lines @ [s])))"

fun format_loop ::
  "int \<Rightarrow> int \<Rightarrow> bool \<Rightarrow> bool \<Rightarrow> bool \<Rightarrow> bool \<times> string list \<Rightarrow> string list
     \<Rightarrow> error + (bool \<times> string list)" where
  "format_loop a bi tc kc kw st [] = Inr st"
| "format_loop a bi tc kc kw st (raw # rest) =
     (case format_step a bi tc kc kw st raw of
        Inl e \<Rightarrow> Inl e
      | Inr st' \<Rightarrow> format_loop a bi tc kc kw st' rest)"

text \<open>\<^verbatim>\<open>mod_lines\<close> at the end of the loop, before the final join.\<close>

definition format_nml_lines ::
  "string \<Rightarrow> int \<Rightarrow> int \<Rightarrow> bool \<Rightarrow> bool \<Rightarrow> bool \<Rightarrow> error + string list" where
  "format_nml_lines content eq_offset block_indent trailing_comma keep_comments keep_whitelines =
     (let longest_key = find_longest_key content;
          align_eq_to = longest_key + eq_offset
      in case format_loop align_eq_to block_indent trailing_comma keep_comments keep_whitelines
                (False, []) (splitlines content) of
           Inl e \<Rightarrow> Inl e
         | Inr st \<Rightarrow> Inr (snd st))"

definition format_nml ::
  "string \<Rightarrow> int \<Rightarrow> int \<Rightarrow> bool \<Rightarrow> bool \<Rightarrow> bool \<Rightarrow> error + string" where
  "format_nml content eq_offset block_indent trailing_comma keep_comments keep_whitelines =
     (case format_nml_lines content eq_offset block_indent trailing_comma keep_comments
             keep_whitelines of
        Inl e \<Rightarrow> Inl e
      | Inr mod_lines \<Rightarrow> Inr (join [CHR 0x0A] mod_lines))"

subsection \<open>Notions used by the properties\<close>

text \<open>The keys of the lines that \<^const>\<open>parse_key_val_pair\<close> accepts, in order.\<close>

definition parsed_keys :: "string list \<Rightarrow> string list" where
  "parsed_keys ls =
     concat (map (\<lambda>l. case parse_key_val_pair l of Inl _ \<Rightarrow> [] | Inr (k, _, _) \<Rightarrow> [k]) ls)"

text \<open>The five kinds of line that the loop of \<^verbatim>\<open>format_nml\<close> tells apart, tested
  in this order on the trimmed line.\<close>

datatype line_class = BlockOpen | BlockClose | Blank | Comment | Assignment

definition classify :: "string \<Rightarrow> line_class" where
  "classify raw =
     (if starts_with (strip raw) (CHR ''&'') then BlockOpen
      else if strip raw = ''/'' then BlockClose
      else if strip raw = '''' then Blank
      else if starts_with (strip raw) (CHR ''!'') then Comment
      else Assignment)"

text \<open>The line as the loop sees it after \<^verbatim>\<open>line.strip("\n")\<close> and
  \<^verbatim>\<open>line.rstrip()\<close>.\<close>

definition clean :: "string \<Rightarrow> string" where
  "clean raw = rstrip (strip_of (\<lambda>c. c = CHR 0x0A) raw)"

text \<open>A line is inside a block when the last block delimiter before it is an opener.\<close>

fun inside_block_from :: "bool \<Rightarrow> string list \<Rightarrow> bool" where
  "inside_block_from b [] = b"
| "inside_block_from b (raw # rest) =
     inside_block_from
       (case classify raw of BlockOpen \<Rightarrow> True | BlockClose \<Rightarrow> False | _ \<Rightarrow> b) rest"

definition inside_block :: "string list \<Rightarrow> bool" where
  "inside_block before = inside_block_from False before"

text \<open>The column of the first \<open>=\<close> of a line, counted from 0.\<close>

definition eq_column :: "string \<Rightarrow> nat" where
  "eq_column s = length (takeWhile (\<lambda>c. c \<noteq> CHR ''='') s)"

text \<open>The strings that have a prefix of the shape of the pattern of the parser,
  \<^verbatim>\<open>\s*,?\s*[^\s=]+\s*=+\<close>: white space, an optional comma, white space, a key of
  at least one character that is neither white space nor \<open>=\<close>, white space, and at least
  one \<open>=\<close>.\<close>

definition regex_pattern :: "string \<Rightarrow> bool" where
  "regex_pattern s \<longleftrightarrow>
     (\<exists>ws1 c ws2 k ws3 es rest.
        s = ws1 @ c @ ws2 @ k @ ws3 @ es @ rest \<and>
        (\<forall>x\<in>set ws1. is_space x) \<and> (c = [] \<or> c = '','') \<and> (\<forall>x\<in>set ws2. is_space x) \<and>
        k \<noteq> [] \<and> (\<forall>x\<in>set k. is_key_char x) \<and> (\<forall>x\<in>set ws3. is_space x) \<and>
        es \<noteq> [] \<and> (\<forall>x\<in>set es. x = CHR ''=''))"

text \<open>The same with the pattern as the claim C4 words it, which names no white space
  after the comma and none between the key and the \<open>=\<close> signs.\<close>

definition claimed_pattern :: "string \<Rightarrow> bool" where
  "claimed_pattern s \<longleftrightarrow>
     (\<exists>ws c k es rest.
        s = ws @ c @ k @ es @ rest \<and>
        (\<forall>x\<in>set ws. is_space x) \<and> (c = [] \<or> c = '','') \<and>
        k \<noteq> [] \<and> (\<forall>x\<in>set k. is_key_char x) \<and>
        es \<noteq> [] \<and> (\<forall>x\<in>set es. x = CHR ''=''))"

text \<open>A string without white space at either end and without a comma at the end: the
  shape of a value that the parser reads back from a formatted line as it is.\<close>

definition tidy :: "string \<Rightarrow> bool" where
  "tidy x \<longleftrightarrow> x = [] \<or> (\<not> is_space (hd x) \<and> \<not> is_space (last x) \<and> last x \<noteq> CHR '','')"

text \<open>\<^verbatim>\<open>value.replace('"', "'")\<close>, character by character.\<close>

abbreviation quote_map :: "char \<Rightarrow> char" where
  "quote_map \<equiv> (\<lambda>x. if x = CHR 0x22 then CHR 0x27 else x)"


text \<open>The key that the parser finds in a line, if it finds one.\<close>

definition line_key :: "string \<Rightarrow> string option" where
  "line_key l = (case parse_key_val_pair l of Inl _ \<Rightarrow> None | Inr (k, _, _) \<Rightarrow> Some k)"

section \<open>Properties\<close>

lemma parsed_keys_Nil [simp]: "parsed_keys [] = []"
  by (simp add: parsed_keys_def)

lemma parsed_keys_Cons:
  "parsed_keys (l # ls) =
     (case parse_key_val_pair l of Inl _ \<Rightarrow> [] | Inr (k, _, _) \<Rightarrow> [k]) @ parsed_keys ls"
  by (simp add: parsed_keys_def)


lemma in_parsed_keys:
  "k \<in> set (parsed_keys ls) \<longleftrightarrow> (\<exists>l \<in> set ls. \<exists>v c. parse_key_val_pair l = Inr (k, v, c))"
  by (induction ls) (auto simp: parsed_keys_Cons split: sum.splits, metis)

lemma longest_key_loop_fold:
  "longest_key_loop n ls = fold max (map (\<lambda>k. int (length k)) (parsed_keys ls)) n"
proof (induction ls arbitrary: n)
  case Nil
  show ?case by simp
next
  case (Cons l ls)
  show ?case
  proof (cases "parse_key_val_pair l")
    case (Inl e)
    then show ?thesis using Cons.IH [of n] by (cases e) (simp add: parsed_keys_Cons)
  next
    case (Inr r)
    obtain k v c where r: "r = (k, v, c)" by (cases r)
    have "(if int (length k) > n then int (length k) else n) = max (int (length k)) n"
      by (simp add: max_def)
    then show ?thesis using Inr r Cons.IH [of "max (int (length k)) n"]
      by (simp add: parsed_keys_Cons)
  qed
qed

lemma longest_key_loop_Max:
  "longest_key_loop n ls = Max (set (n # map (\<lambda>k. int (length k)) (parsed_keys ls)))"
  by (simp only: longest_key_loop_fold Max.set_eq_fold)

lemma takeWhile_neq_append: "x \<notin> set a \<Longrightarrow> takeWhile (\<lambda>c. c \<noteq> x) (a @ x # b) = a"
  by (induction a) auto

lemma dropWhile_neq_append: "x \<notin> set a \<Longrightarrow> dropWhile (\<lambda>c. c \<noteq> x) (a @ x # b) = x # b"
  by (induction a) auto

lemma takeWhile_neq_all: "x \<notin> set a \<Longrightarrow> takeWhile (\<lambda>c. c \<noteq> x) a = a"
  by (induction a) auto

lemma set_rstrip_of: "set (rstrip_of P s) \<subseteq> set s"
  unfolding rstrip_of_def using set_dropWhileD [of _ P "rev s"] by auto

lemma set_strip_of: "set (strip_of P s) \<subseteq> set s"
  unfolding strip_of_def lstrip_of_def
  using set_rstrip_of [of P "dropWhile P s"] set_dropWhileD [of _ P s] by auto

lemma set_tl_subset: "set (tl xs) \<subseteq> set xs"
  by (cases xs) auto

lemma match_from_set:
  assumes "match_from s = Some (k, g)"
  shows "set k \<subseteq> set s" and "set g \<subseteq> set s"
proof -
  from assms have k: "k = takeWhile is_key_char s"
    and g: "g = takeWhile (\<lambda>c. c \<noteq> CHR 0x0A)
                 (dropWhile (\<lambda>c. c = CHR ''='') (dropWhile is_space (dropWhile is_key_char s)))"
    by (auto simp: match_from_def Let_def split: if_splits)
  show "set k \<subseteq> set s" unfolding k by (auto dest: set_takeWhileD)
  show "set g \<subseteq> set s" unfolding g by (auto dest!: set_takeWhileD set_dropWhileD)
qed

lemma eq_match_set:
  assumes "eq_match s = Some (k, g)"
  shows "set k \<subseteq> set s" and "set g \<subseteq> set s"
proof -
  let ?s = "dropWhile is_space s"
  have sub1: "set ?s \<subseteq> set s" by (auto dest: set_dropWhileD)
  have "set (tl ?s) \<subseteq> set ?s" by (rule set_tl_subset)
  moreover have "set (dropWhile is_space (tl ?s)) \<subseteq> set (tl ?s)"
    by (auto dest: set_dropWhileD)
  ultimately have sub2: "set (dropWhile is_space (tl ?s)) \<subseteq> set s"
    using sub1 by blast
  from assms consider "match_from ?s = Some (k, g)"
    | "match_from (dropWhile is_space (tl ?s)) = Some (k, g)"
    by (auto simp: eq_match_def Let_def split: if_splits option.splits)
  then have "set k \<subseteq> set s \<and> set g \<subseteq> set s"
  proof cases
    case 1
    then show ?thesis using match_from_set [OF 1] sub1 by blast
  next
    case 2
    then show ?thesis using match_from_set [OF 2] sub2 by blast
  qed
  then show "set k \<subseteq> set s" and "set g \<subseteq> set s" by simp_all
qed

lemma split_first_at:
  "sep \<notin> set a \<Longrightarrow> split_first sep (a @ sep # b) = (a, b)"
  by (simp add: split_first_def takeWhile_neq_append dropWhile_neq_append)

lemma parse_no_bang:
  "CHR ''!'' \<notin> set a \<Longrightarrow>
   parse_key_val_pair a =
     (case eq_match a of
        Some (key, g2) \<Rightarrow>
          Inr (key, strip (rstrip_of (\<lambda>c. c \<in> {CHR '','', CHR '' '', CHR 0x09}) g2), '''')
      | None \<Rightarrow> Inl ValueError)"
  by (simp add: parse_key_val_pair_def)

lemma parse_bang:
  "CHR ''!'' \<notin> set a \<Longrightarrow>
   parse_key_val_pair (a @ CHR ''!'' # b) =
     (case eq_match a of
        Some (key, g2) \<Rightarrow>
          Inr (key, strip (rstrip_of (\<lambda>c. c \<in> {CHR '','', CHR '' '', CHR 0x09}) g2),
               '' ! '' @ strip b)
      | None \<Rightarrow> Inl ValueError)"
  by (simp add: parse_key_val_pair_def split_first_at split: option.splits)

lemma parse_value_set:
  assumes "parse_key_val_pair l = Inr (k, v, c)"
  shows "set k \<subseteq> set (takeWhile (\<lambda>c. c \<noteq> CHR ''!'') l)"
    and "set v \<subseteq> set (takeWhile (\<lambda>c. c \<noteq> CHR ''!'') l)"
proof -
  let ?vp = "takeWhile (\<lambda>c. c \<noteq> CHR ''!'') l"
  have vp: "(if CHR ''!'' \<in> set l then fst (split_first (CHR ''!'') l) else l) = ?vp"
    by (simp add: split_first_def takeWhile_neq_all)
  from assms obtain g where m: "eq_match ?vp = Some (k, g)"
    and v: "v = strip (rstrip_of (\<lambda>c. c \<in> {CHR '','', CHR '' '', CHR 0x09}) g)"
    using vp by (auto simp: parse_key_val_pair_def split: if_splits option.splits)
  show "set k \<subseteq> set ?vp" using eq_match_set(1) [OF m] .
  show "set v \<subseteq> set ?vp"
    unfolding v using eq_match_set(2) [OF m] set_strip_of set_rstrip_of by blast
qed

subsection \<open>Stripping\<close>

lemma dropWhile_weaker:
  "(\<And>c. Q c \<Longrightarrow> P c) \<Longrightarrow> dropWhile P (dropWhile Q s) = dropWhile P s"
  by (induction s) auto

lemma all_dropWhile_weaker:
  "(\<And>c. Q c \<Longrightarrow> P c) \<Longrightarrow> (\<forall>c\<in>set (dropWhile Q s). P c) \<longleftrightarrow> (\<forall>c\<in>set s. P c)"
  by (induction s) auto

lemma rstrip_of_Nil [simp]: "rstrip_of P [] = []"
  by (simp add: rstrip_of_def)

lemma rstrip_of_eq_Nil: "rstrip_of P s = [] \<longleftrightarrow> (\<forall>c\<in>set s. P c)"
  by (simp add: rstrip_of_def)

lemma rstrip_of_Cons:
  "rstrip_of P (c # s) = (if P c \<and> (\<forall>x\<in>set s. P x) then [] else c # rstrip_of P s)"
  by (auto simp: rstrip_of_def dropWhile_append)


lemma rstrip_of_weaker:
  "(\<And>c. Q c \<Longrightarrow> P c) \<Longrightarrow> rstrip_of P (rstrip_of Q s) = rstrip_of P s"
  by (simp add: rstrip_of_def dropWhile_weaker)

lemma rstrip_of_idem [simp]: "rstrip_of P (rstrip_of P s) = rstrip_of P s"
  by (simp add: rstrip_of_def)

lemma rstrip_of_decomp: "s = rstrip_of P s @ rev (takeWhile P (rev s))"
  unfolding rstrip_of_def by (metis rev_append rev_rev_ident takeWhile_dropWhile_id)


lemma rstrip_of_id:
  "s = [] \<or> \<not> P (last s) \<Longrightarrow> rstrip_of P s = s"
  by (cases s rule: rev_cases) (auto simp: rstrip_of_def)

lemma rstrip_of_last: "rstrip_of P s \<noteq> [] \<Longrightarrow> \<not> P (last (rstrip_of P s))"
  using hd_dropWhile [of P "rev s"] by (simp add: rstrip_of_def last_rev)

lemma lstrip_rstrip_commute:
  "dropWhile P (rstrip_of Q s) = rstrip_of Q (dropWhile P s)"
proof (induction s)
  case Nil
  show ?case by simp
next
  case (Cons c s)
  show ?case
  proof (cases "Q c \<and> (\<forall>x\<in>set s. Q x)")
    case True
    have L: "rstrip_of Q (c # s) = []"
      using True by (simp add: rstrip_of_eq_Nil)
    have "\<And>x. x \<in> set (dropWhile P (c # s)) \<Longrightarrow> Q x"
    proof -
      fix x assume "x \<in> set (dropWhile P (c # s))"
      then have "x \<in> set (c # s)" by (rule set_dropWhileD)
      then show "Q x" using True by auto
    qed
    then have R: "rstrip_of Q (dropWhile P (c # s)) = []"
      unfolding rstrip_of_eq_Nil by blast
    show ?thesis unfolding L R by simp
  next
    case False
    then have L: "rstrip_of Q (c # s) = c # rstrip_of Q s"
      by (simp only: rstrip_of_Cons if_False)
    show ?thesis
    proof (cases "P c")
      case True
      have "dropWhile P (rstrip_of Q (c # s)) = dropWhile P (rstrip_of Q s)"
        unfolding L using True by simp
      also have "\<dots> = rstrip_of Q (dropWhile P s)" by (rule Cons.IH)
      also have "\<dots> = rstrip_of Q (dropWhile P (c # s))" using True by simp
      finally show ?thesis .
    next
      case nP: False
      have "dropWhile P (rstrip_of Q (c # s)) = c # rstrip_of Q s"
        unfolding L using nP by simp
      moreover have "rstrip_of Q (dropWhile P (c # s)) = c # rstrip_of Q s"
        using nP L by simp
      ultimately show ?thesis by simp
    qed
  qed
qed

lemma strip_of_eq_Nil: "strip_of P s = [] \<longleftrightarrow> (\<forall>c\<in>set s. P c)"
  by (simp add: strip_of_def lstrip_of_def rstrip_of_eq_Nil all_dropWhile_weaker)

lemma strip_of_alt: "strip_of P s = dropWhile P (rstrip_of P s)"
  by (simp add: strip_of_def lstrip_of_def lstrip_rstrip_commute)

lemma strip_of_idem [simp]: "strip_of P (strip_of P s) = strip_of P s"
  by (simp add: strip_of_def lstrip_of_def lstrip_rstrip_commute)

lemma strip_of_hd: "strip_of P s \<noteq> [] \<Longrightarrow> \<not> P (hd (strip_of P s))"
  unfolding strip_of_alt by (rule hd_dropWhile)

lemma strip_of_last: "strip_of P s \<noteq> [] \<Longrightarrow> \<not> P (last (strip_of P s))"
  unfolding strip_of_def by (rule rstrip_of_last)

lemma strip_of_id:
  "s = [] \<or> (\<not> P (hd s) \<and> \<not> P (last s)) \<Longrightarrow> strip_of P s = s"
  by (cases s) (auto simp: strip_of_def lstrip_of_def rstrip_of_id)

lemma is_space_LF: "c = CHR 0x0A \<Longrightarrow> is_space c"
  by (simp add: is_space_def)

lemma clean_alt: "clean raw = rstrip (dropWhile (\<lambda>c. c = CHR 0x0A) raw)"
  by (simp add: clean_def strip_of_def lstrip_of_def rstrip_of_weaker is_space_LF)

lemma strip_clean: "strip (clean raw) = strip raw"
proof -
  have "strip (clean raw) = rstrip (dropWhile is_space (rstrip (dropWhile (\<lambda>c. c = CHR 0x0A) raw)))"
    by (simp add: clean_alt strip_of_def lstrip_of_def)
  also have "\<dots> = rstrip (rstrip (dropWhile is_space (dropWhile (\<lambda>c. c = CHR 0x0A) raw)))"
    by (simp only: lstrip_rstrip_commute)
  also have "\<dots> = rstrip (dropWhile is_space raw)"
    by (simp add: dropWhile_weaker is_space_LF)
  finally show ?thesis by (simp add: strip_of_def lstrip_of_def)
qed

lemma clean_eq_Nil: "clean raw = [] \<longleftrightarrow> strip raw = []"
  by (simp add: clean_alt rstrip_of_eq_Nil strip_of_eq_Nil all_dropWhile_weaker is_space_LF)

lemma clean_no_LF: "CHR 0x0A \<notin> set raw \<Longrightarrow> clean raw = rstrip raw"
proof -
  assume "CHR 0x0A \<notin> set raw"
  then have "dropWhile (\<lambda>c. c = CHR 0x0A) raw = raw" by (cases raw) auto
  then show ?thesis by (simp add: clean_alt)
qed

subsection \<open>One step of the loop, by class of line\<close>

lemma format_step_classify:
  "format_step a bi tc kc kw (b, ml) raw =
     (case classify raw of
        BlockOpen \<Rightarrow> Inr (True, ml @ [lower (strip raw)])
      | BlockClose \<Rightarrow> Inr (False, ml @ [''/'', ''''])
      | Blank \<Rightarrow> Inr (b, ml @ (if kw \<and> b then [''''] else []))
      | Comment \<Rightarrow>
          Inr (b, ml @ (if kc then [(if b then spaces bi else '''') @ ''! '' @ strip (tl (strip raw))]
                        else []))
      | Assignment \<Rightarrow>
          (case format_line (clean raw) a bi tc kc of
             Inl e \<Rightarrow> Inl e
           | Inr s \<Rightarrow> Inr (b, ml @ [s])))"
  unfolding format_step_def classify_def Let_def clean_def [symmetric]
  by (simp add: strip_clean clean_eq_Nil split: sum.splits)

lemma format_step_acc:
  "format_step a bi tc kc kw (b, ml) raw =
     (case format_step a bi tc kc kw (b, []) raw of
        Inl e \<Rightarrow> Inl e
      | Inr (b', out) \<Rightarrow> Inr (b', ml @ out))"
  by (simp add: format_step_classify split: line_class.splits sum.splits)

lemma format_step_state:
  "format_step a bi tc kc kw (b, ml) raw = Inr (b', ml') \<Longrightarrow>
   b' = (case classify raw of BlockOpen \<Rightarrow> True | BlockClose \<Rightarrow> False | _ \<Rightarrow> b)"
  by (auto simp: format_step_classify split: line_class.splits sum.splits)

lemma format_loop_acc:
  "format_loop a bi tc kc kw (b, ml) ls =
     (case format_loop a bi tc kc kw (b, []) ls of
        Inl e \<Rightarrow> Inl e
      | Inr (b', out) \<Rightarrow> Inr (b', ml @ out))"
proof (induction ls arbitrary: b ml)
  case Nil
  show ?case by simp
next
  case (Cons raw ls)
  show ?case
  proof (cases "format_step a bi tc kc kw (b, []) raw")
    case (Inl e)
    then show ?thesis using format_step_acc [of a bi tc kc kw b ml raw] by simp
  next
    case (Inr st)
    obtain b1 o1 where st: "st = (b1, o1)" by (cases st)
    have 1: "format_step a bi tc kc kw (b, ml) raw = Inr (b1, ml @ o1)"
      using format_step_acc [of a bi tc kc kw b ml raw] Inr st by simp
    show ?thesis
      using Inr st 1 Cons.IH [of b1 "ml @ o1"] Cons.IH [of b1 o1]
      by (simp split: sum.splits)
  qed
qed

lemma format_loop_append:
  "format_loop a bi tc kc kw st (xs @ ys) =
     (case format_loop a bi tc kc kw st xs of
        Inl e \<Rightarrow> Inl e
      | Inr st' \<Rightarrow> format_loop a bi tc kc kw st' ys)"
  by (induction xs arbitrary: st) (auto split: sum.splits)

lemma format_loop_state:
  "format_loop a bi tc kc kw (b, ml) ls = Inr (b', ml') \<Longrightarrow> b' = inside_block_from b ls"
proof (induction ls arbitrary: b ml)
  case Nil
  then show ?case by simp
next
  case (Cons raw ls)
  from Cons.prems obtain b1 m1 where
    1: "format_step a bi tc kc kw (b, ml) raw = Inr (b1, m1)" and
    2: "format_loop a bi tc kc kw (b1, m1) ls = Inr (b', ml')"
    by (auto split: sum.splits)
  show ?case using Cons.IH [OF 2] format_step_state [OF 1] by simp
qed

lemma format_loop_split:
  assumes "format_loop a bi tc kc kw (b, []) (pre @ raw # post) = Inr (bE, out)"
  shows "\<exists>out1 b2 chunk out2.
           format_loop a bi tc kc kw (b, []) pre = Inr (inside_block_from b pre, out1) \<and>
           format_step a bi tc kc kw (inside_block_from b pre, []) raw = Inr (b2, chunk) \<and>
           format_loop a bi tc kc kw (b2, []) post = Inr (bE, out2) \<and>
           out = out1 @ chunk @ out2"
proof -
  from assms obtain b1 out1 where
    1: "format_loop a bi tc kc kw (b, []) pre = Inr (b1, out1)" and
    2: "format_loop a bi tc kc kw (b1, out1) (raw # post) = Inr (bE, out)"
    by (auto simp: format_loop_append split: sum.splits)
  have b1: "b1 = inside_block_from b pre" using format_loop_state [OF 1] .
  from 2 obtain b2 m2 where
    3: "format_step a bi tc kc kw (b1, out1) raw = Inr (b2, m2)" and
    4: "format_loop a bi tc kc kw (b2, m2) post = Inr (bE, out)"
    by (auto split: sum.splits)
  from 3 obtain chunk where
    5: "format_step a bi tc kc kw (b1, []) raw = Inr (b2, chunk)" and m2: "m2 = out1 @ chunk"
    using format_step_acc [of a bi tc kc kw b1 out1 raw] by (auto split: sum.splits)
  from 4 obtain out2 where
    6: "format_loop a bi tc kc kw (b2, []) post = Inr (bE, out2)" and o: "out = m2 @ out2"
    using format_loop_acc [of a bi tc kc kw b2 m2 post] by (auto split: sum.splits)
  show ?thesis using 1 5 6 o m2 b1 by auto
qed

lemma format_nml_lines_loop:
  assumes "format_nml_lines content off bi tc kc kw = Inr out"
  shows "\<exists>bE. format_loop (find_longest_key content + off) bi tc kc kw (False, [])
                (splitlines content) = Inr (bE, out)"
proof (cases "format_loop (find_longest_key content + off) bi tc kc kw (False, [])
                (splitlines content)")
  case (Inl e)
  then show ?thesis using assms by (simp add: format_nml_lines_def)
next
  case (Inr st)
  then show ?thesis using assms by (cases st) (simp add: format_nml_lines_def)
qed

subsection \<open>Lines of splitlines\<close>

lemma splitlines_from_crlf:
  "splitlines_from cur (CHR 0x0D # CHR 0x0A # s) = rev cur # splitlines_from [] s"
  by simp

lemma splitlines_from_cr:
  "s = [] \<or> hd s \<noteq> CHR 0x0A \<Longrightarrow>
   splitlines_from cur (CHR 0x0D # s) = rev cur # splitlines_from [] s"
  by (cases s) simp_all

lemma splitlines_from_break:
  "is_linebreak c \<Longrightarrow> c \<noteq> CHR 0x0D \<Longrightarrow>
   splitlines_from cur (c # s) = rev cur # splitlines_from [] s"
  by simp

lemma splitlines_from_char:
  "\<not> is_linebreak c \<Longrightarrow> splitlines_from cur (c # s) = splitlines_from (c # cur) s"
proof -
  assume h: "\<not> is_linebreak c"
  have "is_linebreak (CHR 0x0D)" by (simp add: is_linebreak_def)
  with h have "c \<noteq> CHR 0x0D" by blast
  with h show ?thesis by simp
qed

lemma splitlines_from_cases:
  obtains (crlf) s' where "c = CHR 0x0D" and "s = CHR 0x0A # s'"
    | (cr) "c = CHR 0x0D" and "s = [] \<or> hd s \<noteq> CHR 0x0A"
    | (brk) "is_linebreak c" and "c \<noteq> CHR 0x0D"
    | (chr) "\<not> is_linebreak c"
proof (cases "is_linebreak c")
  case False
  then show ?thesis by (rule chr)
next
  case True
  show ?thesis
  proof (cases "c = CHR 0x0D")
    case False
    with True show ?thesis by (rule brk)
  next
    case cr0: True
    show ?thesis
    proof (cases s)
      case Nil
      with cr0 show ?thesis by (intro cr) simp_all
    next
      case (Cons d s')
      show ?thesis
      proof (cases "d = CHR 0x0A")
        case True
        with cr0 Cons show ?thesis by (intro crlf) simp_all
      next
        case False
        with cr0 Cons show ?thesis by (intro cr) simp_all
      qed
    qed
  qed
qed

lemma splitlines_from_no_linebreak:
  "l \<in> set (splitlines_from cur s) \<Longrightarrow> \<forall>c\<in>set cur. \<not> is_linebreak c \<Longrightarrow>
   \<forall>c\<in>set l. \<not> is_linebreak c"
proof (induction "length s" arbitrary: s cur rule: less_induct)
  case less
  show ?case
  proof (cases s)
    case Nil
    then show ?thesis using less.prems by (auto split: if_splits)
  next
    case (Cons c t)
    have IH: "\<And>u cur'. length u < length s \<Longrightarrow> l \<in> set (splitlines_from cur' u) \<Longrightarrow>
        \<forall>c\<in>set cur'. \<not> is_linebreak c \<Longrightarrow> \<forall>c\<in>set l. \<not> is_linebreak c"
      using less.hyps by blast
    show ?thesis
    proof (cases c t rule: splitlines_from_cases)
      case (crlf s')
      have "splitlines_from cur s = rev cur # splitlines_from [] s'"
        unfolding Cons crlf by (rule splitlines_from_crlf)
      then have "l = rev cur \<or> l \<in> set (splitlines_from [] s')"
        using less.prems(1) by simp
      then show ?thesis using less.prems(2) IH [of s' "[]"] Cons crlf by auto
    next
      case cr
      have "splitlines_from cur s = rev cur # splitlines_from [] t"
        unfolding Cons cr(1) by (rule splitlines_from_cr [OF cr(2)])
      then have "l = rev cur \<or> l \<in> set (splitlines_from [] t)"
        using less.prems(1) by simp
      then show ?thesis using less.prems(2) IH [of t "[]"] Cons by auto
    next
      case brk
      have "splitlines_from cur s = rev cur # splitlines_from [] t"
        unfolding Cons by (rule splitlines_from_break [OF brk])
      then have "l = rev cur \<or> l \<in> set (splitlines_from [] t)"
        using less.prems(1) by simp
      then show ?thesis using less.prems(2) IH [of t "[]"] Cons by auto
    next
      case chr
      have "splitlines_from cur s = splitlines_from (c # cur) t"
        unfolding Cons by (rule splitlines_from_char [OF chr])
      then have "l \<in> set (splitlines_from (c # cur) t)"
        using less.prems(1) by simp
      then show ?thesis using less.prems(2) IH [of t "c # cur"] Cons chr by auto
    qed
  qed
qed

lemma splitlines_no_linebreak:
  "l \<in> set (splitlines s) \<Longrightarrow> c \<in> set l \<Longrightarrow> \<not> is_linebreak c"
  using splitlines_from_no_linebreak [of l "[]" s] by (simp add: splitlines_def)

lemma splitlines_no_LF: "l \<in> set (splitlines s) \<Longrightarrow> CHR 0x0A \<notin> set l"
  using splitlines_no_linebreak [of l s "CHR 0x0A"] by (auto simp: is_linebreak_def)

subsection \<open>The parser in one equation\<close>

lemma parse_alt:
  "parse_key_val_pair l =
     (case eq_match (takeWhile (\<lambda>c. c \<noteq> CHR ''!'') l) of
        Some (key, g2) \<Rightarrow>
          Inr (key, strip (rstrip_of (\<lambda>c. c \<in> {CHR '','', CHR '' '', CHR 0x09}) g2),
               if CHR ''!'' \<in> set l
               then '' ! '' @ strip (tl (dropWhile (\<lambda>c. c \<noteq> CHR ''!'') l)) else '''')
      | None \<Rightarrow> Inl ValueError)"
proof (cases "CHR ''!'' \<in> set l")
  case True
  then show ?thesis
    by (simp add: parse_key_val_pair_def split_first_def split: option.splits)
next
  case False
  then show ?thesis
    by (simp add: parse_key_val_pair_def takeWhile_neq_all split: option.splits)
qed

lemma parse_Inr_eq_match:
  "parse_key_val_pair l = Inr (k, v, c) \<Longrightarrow>
   \<exists>g. eq_match (takeWhile (\<lambda>c. c \<noteq> CHR ''!'') l) = Some (k, g)"
  by (auto simp: parse_alt split: option.splits)

lemma eq_match_parse_Inr:
  "eq_match (takeWhile (\<lambda>c. c \<noteq> CHR ''!'') l) = Some (k, g) \<Longrightarrow>
   \<exists>v c. parse_key_val_pair l = Inr (k, v, c)"
  by (simp add: parse_alt)

lemma eq_match_via:
  assumes "eq_match s = Some m"
  shows "\<exists>t. match_from t = Some m \<and> set t \<subseteq> set s"
proof -
  let ?s = "dropWhile is_space s"
  have sub1: "set ?s \<subseteq> set s" by (auto dest: set_dropWhileD)
  have "set (tl ?s) \<subseteq> set ?s" by (rule set_tl_subset)
  moreover have "set (dropWhile is_space (tl ?s)) \<subseteq> set (tl ?s)"
    by (auto dest: set_dropWhileD)
  ultimately have sub2: "set (dropWhile is_space (tl ?s)) \<subseteq> set s"
    using sub1 by blast
  from assms consider "match_from ?s = Some m"
    | "match_from (dropWhile is_space (tl ?s)) = Some m"
    by (auto simp: eq_match_def Let_def split: if_splits option.splits)
  then show ?thesis using sub1 sub2 by cases blast+
qed

lemma match_from_key:
  "match_from s = Some (k, g) \<Longrightarrow> k \<noteq> [] \<and> (\<forall>x\<in>set k. is_key_char x)"
  by (auto simp: match_from_def Let_def split: if_splits dest: set_takeWhileD)

lemma parse_key_props:
  assumes "parse_key_val_pair l = Inr (k, v, c)"
  shows "k \<noteq> []" and "\<forall>x\<in>set k. is_key_char x"
proof -
  from parse_Inr_eq_match [OF assms] obtain g where
    "eq_match (takeWhile (\<lambda>c. c \<noteq> CHR ''!'') l) = Some (k, g)" ..
  from eq_match_via [OF this] obtain t where "match_from t = Some (k, g)" by blast
  from match_from_key [OF this] show "k \<noteq> []" and "\<forall>x\<in>set k. is_key_char x" by simp_all
qed

subsection \<open>The key does not depend on what follows the equals sign\<close>

lemma in_set_dropWhile: "x \<in> set s \<Longrightarrow> \<not> P x \<Longrightarrow> x \<in> set (dropWhile P s)"
  by (induction s) auto

lemma in_set_nonempty: "x \<in> set xs \<Longrightarrow> xs \<noteq> []"
  by auto

lemma eq_not_key_char: "\<not> is_key_char (CHR ''='')"
  by (simp add: is_key_char_def)

lemma eq_not_space: "\<not> is_space (CHR ''='')"
  by (simp add: is_space_def)

lemma match_from_has_eq:
  assumes "match_from t = Some m"
  shows "CHR ''='' \<in> set t"
proof -
  let ?r = "dropWhile is_space (dropWhile is_key_char t)"
  from assms have "?r \<noteq> []" and "hd ?r = CHR ''=''"
    by (auto simp: match_from_def Let_def split: if_splits)
  then have "CHR ''='' \<in> set ?r" using hd_in_set by metis
  then show ?thesis by (auto dest!: set_dropWhileD)
qed

lemma eq_match_has_eq: "eq_match s = Some m \<Longrightarrow> CHR ''='' \<in> set s"
  using eq_match_via match_from_has_eq by blast

lemma match_from_append_key:
  assumes "CHR ''='' \<in> set t"
  shows "map_option fst (match_from (t @ w)) = map_option fst (match_from t)"
proof -
  let ?d = "dropWhile is_key_char t"
  let ?r = "dropWhile is_space ?d"
  have 1: "takeWhile is_key_char (t @ w) = takeWhile is_key_char t"
    using assms eq_not_key_char by (rule takeWhile_append1)
  have 2: "dropWhile is_key_char (t @ w) = ?d @ w"
    using assms eq_not_key_char by (rule dropWhile_append1)
  have 3: "CHR ''='' \<in> set ?d" using assms eq_not_key_char by (rule in_set_dropWhile)
  have 4: "dropWhile is_space (?d @ w) = ?r @ w"
    using 3 eq_not_space by (rule dropWhile_append1)
  have 5: "CHR ''='' \<in> set ?r" using 3 eq_not_space by (rule in_set_dropWhile)
  then have 6: "?r \<noteq> []" by (rule in_set_nonempty)
  then have 7: "hd (?r @ w) = hd ?r" by simp
  show ?thesis
    unfolding match_from_def Let_def 1 2 4 7 using 6 by simp
qed

lemma eq_match_append_key:
  assumes "CHR ''='' \<in> set y"
  shows "map_option fst (eq_match (y @ w)) = map_option fst (eq_match y)"
proof -
  let ?s = "dropWhile is_space y"
  have 1: "dropWhile is_space (y @ w) = ?s @ w"
    using assms eq_not_space by (rule dropWhile_append1)
  have 2: "CHR ''='' \<in> set ?s" using assms eq_not_space by (rule in_set_dropWhile)
  then have 3: "?s \<noteq> []" by (rule in_set_nonempty)
  then have 4: "hd (?s @ w) = hd ?s" and sw: "?s @ w \<noteq> []" by simp_all
  have Ms: "map_option fst (match_from (?s @ w)) = map_option fst (match_from ?s)"
    using 2 by (rule match_from_append_key)
  show ?thesis
  proof (cases "hd ?s = CHR '',''")
    case False
    then show ?thesis unfolding eq_match_def Let_def 1 4 using Ms 3 sw by simp
  next
    case True
    let ?t = "dropWhile is_space (tl ?s)"
    have 5: "tl (?s @ w) = tl ?s @ w" using 3 by simp
    have "?s = hd ?s # tl ?s" using 3 by simp
    then have "CHR ''='' \<in> set (hd ?s # tl ?s)" using 2 by simp
    then have 6: "CHR ''='' \<in> set (tl ?s)" using True by simp
    have 7: "dropWhile is_space (tl ?s @ w) = ?t @ w"
      using 6 eq_not_space by (rule dropWhile_append1)
    have 8: "CHR ''='' \<in> set ?t" using 6 eq_not_space by (rule in_set_dropWhile)
    have Mt: "map_option fst (match_from (?t @ w)) = map_option fst (match_from ?t)"
      using 8 by (rule match_from_append_key)
    have L: "eq_match (y @ w) =
       (case match_from (?t @ w) of Some m \<Rightarrow> Some m | None \<Rightarrow> match_from (?s @ w))"
      unfolding eq_match_def Let_def 1 4 5 7 using True sw by simp
    have R: "eq_match y =
       (case match_from ?t of Some m \<Rightarrow> Some m | None \<Rightarrow> match_from ?s)"
      unfolding eq_match_def Let_def using True 3 by simp
    show ?thesis
    proof (cases "match_from ?t")
      case None
      then have "match_from (?t @ w) = None" using Mt by simp
      then show ?thesis unfolding L R using None Ms by simp
    next
      case (Some m)
      then obtain m' where m': "match_from (?t @ w) = Some m'" and "fst m' = fst m"
        using Mt by (cases "match_from (?t @ w)") auto
      then show ?thesis unfolding L R using Some by simp
    qed
  qed
qed

lemma parse_rstrip_key:
  assumes "parse_key_val_pair (rstrip l) = Inr (k, v, c)"
  shows "\<exists>v' c'. parse_key_val_pair l = Inr (k, v', c')"
proof -
  let ?vp = "takeWhile (\<lambda>c. c \<noteq> CHR ''!'')"
  from parse_Inr_eq_match [OF assms] obtain g where
    m: "eq_match (?vp (rstrip l)) = Some (k, g)" ..
  obtain z where z: "l = rstrip l @ z" using rstrip_of_decomp by blast
  obtain w where w: "?vp l = ?vp (rstrip l) @ w"
  proof (cases "\<forall>x\<in>set (rstrip l). x \<noteq> CHR ''!''")
    case True
    then have a: "?vp (rstrip l) = rstrip l" by simp
    have "?vp (rstrip l @ z) = rstrip l @ ?vp z" using True by simp
    then show ?thesis using that z a by metis
  next
    case False
    then obtain x where "x \<in> set (rstrip l)" and "\<not> x \<noteq> CHR ''!''" by blast
    then have "?vp (rstrip l @ z) = ?vp (rstrip l)" by (rule takeWhile_append1)
    then have "?vp (rstrip l @ z) = ?vp (rstrip l) @ []" by simp
    then show ?thesis using that z by metis
  qed
  have "CHR ''='' \<in> set (?vp (rstrip l))" using m by (rule eq_match_has_eq)
  then have "map_option fst (eq_match (?vp (rstrip l) @ w)) = map_option fst (eq_match (?vp (rstrip l)))"
    by (rule eq_match_append_key)
  then have "map_option fst (eq_match (?vp l)) = Some k" using m w by simp
  then obtain g' where "eq_match (?vp l) = Some (k, g')" by auto
  then show ?thesis by (rule eq_match_parse_Inr)
qed

lemma key_le_longest:
  assumes "l \<in> set (splitlines content)" and "parse_key_val_pair l = Inr (k, v, c)"
  shows "int (length k) \<le> find_longest_key content"
proof -
  have "k \<in> set (parsed_keys (splitlines content))"
    using assms in_parsed_keys by blast
  then have "int (length k) \<in> set (- 1 # map (\<lambda>k. int (length k)) (parsed_keys (splitlines content)))"
    by simp
  then have "int (length k) \<le> Max (set (- 1 # map (\<lambda>k. int (length k)) (parsed_keys (splitlines content))))"
    by (intro Max_ge) simp_all
  then show ?thesis by (simp only: find_longest_key_def longest_key_loop_Max)
qed

lemma clean_key_le_longest:
  assumes "raw \<in> set (splitlines content)"
    and "parse_key_val_pair (clean raw) = Inr (k, v, c)"
  shows "int (length k) \<le> find_longest_key content"
proof -
  have "clean raw = rstrip raw" using splitlines_no_LF [OF assms(1)] by (rule clean_no_LF)
  then obtain v' c' where "parse_key_val_pair raw = Inr (k, v', c')"
    using assms(2) parse_rstrip_key by metis
  with assms(1) show ?thesis by (rule key_le_longest)
qed

subsection \<open>What one line contributes\<close>

lemma format_line_shape:
  assumes "format_line l a bi tc kc = Inr s"
  shows "\<exists>key value comment.
           parse_key_val_pair l = Inr (key, value, comment) \<and>
           s = spaces bi @ key @ spaces (max (a - int (length key) - 1) 1) @ '' = ''
               @ normalize_quotes (normalize_bools (normalize_list value))
               @ (if tc then '','' else '''') @ (if kc then comment else '''')"
proof (cases "parse_key_val_pair l")
  case (Inl e)
  then show ?thesis using assms by (simp add: format_line_def)
next
  case (Inr r)
  obtain ky vl cm where r: "r = (ky, vl, cm)" by (cases r)
  show ?thesis using assms Inr r by (simp add: format_line_def Let_def)
qed

lemma document_line:
  assumes "format_nml_lines content off bi tc kc kw = Inr out"
    and "splitlines content = before @ raw # after"
  shows "\<exists>out1 b2 chunk out2 bE.
           format_loop (find_longest_key content + off) bi tc kc kw (False, []) before
             = Inr (inside_block before, out1) \<and>
           format_step (find_longest_key content + off) bi tc kc kw (inside_block before, []) raw
             = Inr (b2, chunk) \<and>
           format_loop (find_longest_key content + off) bi tc kc kw (b2, []) after
             = Inr (bE, out2) \<and>
           out = out1 @ chunk @ out2"
proof -
  from format_nml_lines_loop [OF assms(1)] obtain bE where
    "format_loop (find_longest_key content + off) bi tc kc kw (False, []) (before @ raw # after)
       = Inr (bE, out)"
    unfolding assms(2) ..
  from format_loop_split [OF this] show ?thesis unfolding inside_block_def by blast
qed

lemma classify_Blank: "strip raw = [] \<Longrightarrow> classify raw = Blank"
  by (simp add: classify_def starts_with_def)

lemma classify_BlockClose: "strip raw = ''/'' \<Longrightarrow> classify raw = BlockClose"
  by (simp add: classify_def starts_with_def)

lemma format_step_chunk_outside:
  assumes "format_step a bi tc kc kw (False, []) raw = Inr (b1, chunk)"
  shows "(chunk = [] \<and> b1 = False) \<or> (chunk \<noteq> [] \<and> hd chunk \<noteq> [])"
proof (cases "classify raw")
  case BlockOpen
  then have "strip raw \<noteq> []" by (auto simp: classify_def starts_with_def split: if_splits)
  then show ?thesis using assms BlockOpen by (auto simp: format_step_classify lower_def)
next
  case BlockClose
  then show ?thesis using assms by (auto simp: format_step_classify)
next
  case Blank
  then show ?thesis using assms by (auto simp: format_step_classify)
next
  case Comment
  then show ?thesis using assms by (auto simp: format_step_classify split: if_splits)
next
  case Assignment
  then obtain s where s: "format_line (clean raw) a bi tc kc = Inr s" and c: "chunk = [s]"
    using assms by (auto simp: format_step_classify split: sum.splits)
  from format_line_shape [OF s] have "s \<noteq> []" by auto
  then show ?thesis using c by simp
qed

lemma format_loop_outside_first:
  "format_loop a bi tc kc kw (False, []) ls = Inr (b, out) \<Longrightarrow> out = [] \<or> hd out \<noteq> []"
proof (induction ls arbitrary: b out)
  case Nil
  then show ?case by simp
next
  case (Cons raw ls)
  from Cons.prems obtain b1 chunk where
    1: "format_step a bi tc kc kw (False, []) raw = Inr (b1, chunk)" and
    2: "format_loop a bi tc kc kw (b1, chunk) ls = Inr (b, out)"
    by (auto split: sum.splits)
  from 2 obtain out' where
    3: "format_loop a bi tc kc kw (b1, []) ls = Inr (b, out')" and o: "out = chunk @ out'"
    using format_loop_acc [of a bi tc kc kw b1 chunk ls] by (auto split: sum.splits)
  from format_step_chunk_outside [OF 1] show ?case
  proof
    assume "chunk = [] \<and> b1 = False"
    then show ?thesis using Cons.IH [of b out'] 3 o by simp
  next
    assume "chunk \<noteq> [] \<and> hd chunk \<noteq> []"
    then show ?thesis using o by simp
  qed
qed

lemma key_char_not_space: "is_key_char c \<Longrightarrow> \<not> is_space c"
  by (simp add: is_key_char_def)

lemma eq_column_format:
  assumes "\<forall>x\<in>set key. is_key_char x"
  shows "eq_column (spaces bi @ key @ spaces pad @ '' = '' @ rest)
         = nat bi + length key + nat pad + 1"
proof -
  let ?a = "spaces bi @ key @ spaces pad @ '' ''"
  have "CHR ''='' \<notin> set ?a"
    using assms by (auto simp: spaces_def is_key_char_def)
  then have "takeWhile (\<lambda>c. c \<noteq> CHR ''='') (?a @ CHR ''='' # ('' '' @ rest)) = ?a"
    by (rule takeWhile_neq_append)
  moreover have "spaces bi @ key @ spaces pad @ '' = '' @ rest = ?a @ CHR ''='' # ('' '' @ rest)"
    by simp
  ultimately have "takeWhile (\<lambda>c. c \<noteq> CHR ''='') (spaces bi @ key @ spaces pad @ '' = '' @ rest) = ?a"
    by (simp only:)
  then show ?thesis by (simp add: eq_column_def spaces_def)
qed

subsection \<open>The pattern of the parser\<close>

lemma regex_patternI:
  "s = ws1 @ c @ ws2 @ k @ ws3 @ es @ rest \<Longrightarrow>
   \<forall>x\<in>set ws1. is_space x \<Longrightarrow> c = [] \<or> c = '','' \<Longrightarrow> \<forall>x\<in>set ws2. is_space x \<Longrightarrow>
   k \<noteq> [] \<Longrightarrow> \<forall>x\<in>set k. is_key_char x \<Longrightarrow> \<forall>x\<in>set ws3. is_space x \<Longrightarrow>
   es \<noteq> [] \<Longrightarrow> \<forall>x\<in>set es. x = CHR ''='' \<Longrightarrow> regex_pattern s"
  unfolding regex_pattern_def by blast

lemma match_from_decomp:
  assumes "match_from t = Some (k, g)"
  obtains ws3 es rest where "t = k @ ws3 @ es @ rest" and "k \<noteq> []"
    and "\<forall>x\<in>set k. is_key_char x" and "\<forall>x\<in>set ws3. is_space x"
    and "es \<noteq> []" and "\<forall>x\<in>set es. x = CHR ''=''"
proof -
  define d where "d = dropWhile is_key_char t"
  define r where "r = dropWhile is_space d"
  define w where "w = takeWhile is_space d"
  from assms have k: "k = takeWhile is_key_char t" and kn: "k \<noteq> []"
    and rn: "r \<noteq> []" and rh: "hd r = CHR ''=''"
    unfolding r_def d_def by (auto simp: match_from_def Let_def split: if_splits)
  have kk: "\<forall>x\<in>set k. is_key_char x" unfolding k by (auto dest: set_takeWhileD)
  have 1: "t = k @ d" unfolding k d_def by simp
  have 2: "d = w @ r" unfolding w_def r_def by simp
  obtain r' where 3: "r = CHR ''='' # r'" using rn rh by (cases r) auto
  have t: "t = k @ w @ [CHR ''=''] @ r'" unfolding 1 2 3 by simp
  have ww: "\<forall>x\<in>set w. is_space x" unfolding w_def by (auto dest: set_takeWhileD)
  have e1: "[CHR ''=''] \<noteq> []" by simp
  have e2: "\<forall>x\<in>set [CHR ''='']. x = CHR ''=''" by simp
  show ?thesis by (rule that [OF t kn kk ww e1 e2])
qed

lemma eq_match_regex_pattern:
  assumes "eq_match s = Some (k, g)"
  shows "regex_pattern s"
proof -
  define W1 where "W1 = takeWhile is_space s"
  define S where "S = dropWhile is_space s"
  define W2 where "W2 = takeWhile is_space (tl S)"
  define T where "T = dropWhile is_space (tl S)"
  have ws1: "\<forall>x\<in>set W1. is_space x" unfolding W1_def by (auto dest: set_takeWhileD)
  have ws2: "\<forall>x\<in>set W2. is_space x" unfolding W2_def by (auto dest: set_takeWhileD)
  have s1: "s = W1 @ S" unfolding W1_def S_def by simp
  have s3: "tl S = W2 @ T" unfolding W2_def T_def by simp
  have em: "eq_match s =
      (if S \<noteq> [] \<and> hd S = CHR '',''
       then (case match_from T of Some m \<Rightarrow> Some m | None \<Rightarrow> match_from S)
       else match_from S)"
    unfolding eq_match_def Let_def T_def S_def ..
  have direct: "regex_pattern s" if m: "match_from S = Some (k, g)"
  proof -
    obtain ws3 es rest where
      d: "S = k @ ws3 @ es @ rest" and p: "k \<noteq> []" "\<forall>x\<in>set k. is_key_char x"
      "\<forall>x\<in>set ws3. is_space x" "es \<noteq> []" "\<forall>x\<in>set es. x = CHR ''=''"
      by (rule match_from_decomp [OF m])
    have "s = W1 @ [] @ [] @ k @ ws3 @ es @ rest"
      unfolding s1 d by simp
    then show ?thesis
      by (rule regex_patternI [OF _ ws1 _ _ p]) simp_all
  qed
  have comma: "regex_pattern s"
    if c: "S \<noteq> [] \<and> hd S = CHR '',''" and m: "match_from T = Some (k, g)"
  proof -
    obtain ws3 es rest where
      d: "T = k @ ws3 @ es @ rest" and p: "k \<noteq> []" "\<forall>x\<in>set k. is_key_char x"
      "\<forall>x\<in>set ws3. is_space x" "es \<noteq> []" "\<forall>x\<in>set es. x = CHR ''=''"
      by (rule match_from_decomp [OF m])
    obtain t where St: "S = CHR '','' # t" using c by (cases S) auto
    have s2: "S = '','' @ W2 @ T" using s3 unfolding St by simp
    have "s = W1 @ '','' @ W2 @ k @ ws3 @ es @ rest"
      unfolding s1 s2 d by simp
    then show ?thesis
      by (rule regex_patternI [OF _ ws1 _ ws2 p]) simp_all
  qed
  show ?thesis
  proof (cases "S \<noteq> [] \<and> hd S = CHR '',''")
    case False
    have "eq_match s = match_from S" using False by (simp only: em if_False)
    then have "match_from S = Some (k, g)" using assms by (simp only:)
    then show ?thesis by (rule direct)
  next
    case True
    have e: "eq_match s = (case match_from T of Some m \<Rightarrow> Some m | None \<Rightarrow> match_from S)"
      unfolding em using True by simp
    show ?thesis
    proof (cases "match_from T")
      case None
      have "eq_match s = match_from S" unfolding e None by simp
      then have "match_from S = Some (k, g)" using assms by (simp only:)
      then show ?thesis by (rule direct)
    next
      case (Some m)
      have "eq_match s = Some m" unfolding e Some by simp
      then have "match_from T = Some (k, g)" using assms Some by (simp only:)
      with True show ?thesis by (rule comma)
    qed
  qed
qed

lemma match_from_of_pattern:
  assumes "k \<noteq> []" and "\<forall>x\<in>set k. is_key_char x" and "\<forall>x\<in>set ws3. is_space x"
    and "es \<noteq> []" and "\<forall>x\<in>set es. x = CHR ''=''"
  shows "\<exists>g. match_from (k @ ws3 @ es @ rest) = Some (k, g)"
proof -
  obtain e es' where es: "es = e # es'" using assms(4) by (cases es) auto
  then have e: "e = CHR ''=''" using assms(5) by simp
  have nk: "\<forall>x\<in>set ws3. \<not> is_key_char x" using assms(3) by (simp add: is_key_char_def)
  have 1: "takeWhile is_key_char (k @ ws3 @ es @ rest) = k"
  proof (cases ws3)
    case Nil
    then show ?thesis using assms(2) es e eq_not_key_char by simp
  next
    case (Cons w ws)
    then have "\<not> is_key_char w" using nk by simp
    then show ?thesis using assms(2) Cons by simp
  qed
  have 2: "dropWhile is_key_char (k @ ws3 @ es @ rest) = ws3 @ es @ rest"
  proof (cases ws3)
    case Nil
    then show ?thesis using assms(2) es e eq_not_key_char by simp
  next
    case (Cons w ws)
    then have "\<not> is_key_char w" using nk by simp
    then show ?thesis using assms(2) Cons by simp
  qed
  have 3: "dropWhile is_space (ws3 @ es @ rest) = es @ rest"
    using assms(3) es e eq_not_space by simp
  show ?thesis
    unfolding match_from_def Let_def 1 2 3 using assms(1) es e by simp
qed

lemma regex_pattern_eq_match:
  assumes "regex_pattern s"
  shows "\<exists>m. eq_match s = Some m"
proof -
  from assms obtain ws1 c ws2 k ws3 es rest where
    d: "s = ws1 @ c @ ws2 @ k @ ws3 @ es @ rest" and
    w1: "\<forall>x\<in>set ws1. is_space x" and c: "c = [] \<or> c = '',''" and
    w2: "\<forall>x\<in>set ws2. is_space x" and
    k: "k \<noteq> []" "\<forall>x\<in>set k. is_key_char x" and w3: "\<forall>x\<in>set ws3. is_space x" and
    es: "es \<noteq> []" "\<forall>x\<in>set es. x = CHR ''=''"
    unfolding regex_pattern_def by (elim exE conjE) blast
  let ?u = "k @ ws3 @ es @ rest"
  from match_from_of_pattern [OF k w3 es] obtain g where m: "match_from ?u = Some (k, g)" by blast
  obtain h k' where kc: "k = h # k'" using k(1) by (cases k) auto
  then have hk: "\<not> is_space h" using k(2) by (simp add: is_key_char_def)
  have u: "dropWhile is_space (ws2 @ ?u) = ?u" using w2 hk kc by simp
  have comma_ns: "\<not> is_space (CHR '','')" by (simp add: is_space_def)
  from c show ?thesis
  proof
    assume "c = []"
    then have 1: "dropWhile is_space s = ?u" using d w1 u by simp
    show ?thesis
      unfolding eq_match_def Let_def 1 using m by (simp split: option.splits)
  next
    assume "c = '',''"
    then have 1: "dropWhile is_space s = CHR '','' # ws2 @ ?u" using d w1 comma_ns by simp
    show ?thesis
      unfolding eq_match_def Let_def 1 using m u by simp
  qed
qed

lemma eq_match_iff_regex_pattern: "eq_match s = None \<longleftrightarrow> \<not> regex_pattern s"
proof
  assume "eq_match s = None"
  then show "\<not> regex_pattern s" using regex_pattern_eq_match by fastforce
next
  assume "\<not> regex_pattern s"
  then show "eq_match s = None" using eq_match_regex_pattern by (cases "eq_match s") auto
qed

lemma not_claimed_pattern_example: "\<not> claimed_pattern '', x = 1''"
proof
  assume "claimed_pattern '', x = 1''"
  then obtain ws c k es rest where
    d: "'', x = 1'' = ws @ c @ k @ es @ rest" and
    ws: "\<forall>x\<in>set ws. is_space x" and c: "c = [] \<or> c = '',''" and
    k: "k \<noteq> []" "\<forall>x\<in>set k. is_key_char x" and
    es: "es \<noteq> []" "\<forall>x\<in>set es. x = CHR ''=''"
    unfolding claimed_pattern_def by (elim exE conjE) blast
  have comma_ns: "\<not> is_space (CHR '','')" by (simp add: is_space_def)
  have sp_nk: "\<not> is_key_char (CHR '' '')" by (simp add: is_key_char_def is_space_def)
  have ws0: "ws = []"
  proof (cases ws)
    case (Cons a w)
    then have "a = CHR '',''" using d by simp
    then show ?thesis using ws Cons comma_ns by simp
  qed simp
  obtain h k' where kc: "k = h # k'" using k(1) by (cases k) auto
  obtain e es' where ec: "es = e # es'" using es(1) by (cases es) auto
  from c show False
  proof
    assume c0: "c = []"
    then have h: "h = CHR '',''" and r: "'' x = 1'' = k' @ es @ rest"
      using d ws0 kc by simp_all
    show False
    proof (cases k')
      case Nil
      then have "e = CHR '' ''" using r ec by simp
      then show False using es(2) ec by simp
    next
      case (Cons a w)
      then have "a = CHR '' ''" using r by simp
      then show False using k(2) kc Cons sp_nk by simp
    qed
  next
    assume "c = '',''"
    then have "h = CHR '' ''" using d ws0 kc by simp
    then show False using k(2) kc sp_nk by simp
  qed
qed

subsection \<open>Replacing, step by step\<close>

lemma replace_Nil: "old \<noteq> [] \<Longrightarrow> replace old new [] = []"
  by (subst replace.simps) simp

lemma replace_prefix: "old \<noteq> [] \<Longrightarrow> replace old new (old @ s) = new @ replace old new s"
  by (subst replace.simps) simp

lemma replace_Cons:
  "old \<noteq> [] \<Longrightarrow> \<not> prefix old (c # s) \<Longrightarrow> replace old new (c # s) = c # replace old new s"
  by (subst replace.simps) simp

lemma replace_cases [consumes 1, case_names empty hit miss]:
  assumes "old \<noteq> []"
  obtains (empty) "x = []"
    | (hit) z where "x = old @ z" and "length z < length x"
    | (miss) c x' where "x = c # x'" and "\<not> prefix old x"
proof (cases x)
  case Nil
  then show ?thesis by (rule empty)
next
  case (Cons c x')
  show ?thesis
  proof (cases "prefix old x")
    case True
    then obtain z where z: "x = old @ z" unfolding prefix_def by blast
    have "length z < length x" unfolding z using assms by simp
    with z show ?thesis by (rule hit)
  next
    case False
    with Cons show ?thesis by (rule miss)
  qed
qed

lemma replace_append:
  assumes old: "old \<noteq> []"
  shows "\<forall>o1 o2. old = o1 @ o2 \<and> o1 \<noteq> [] \<and> o2 \<noteq> [] \<and> suffix o1 x \<longrightarrow> \<not> prefix o2 y \<Longrightarrow>
         replace old new (x @ y) = replace old new x @ replace old new y"
proof (induction "length x" arbitrary: x rule: less_induct)
  case less
  note ns = less.prems
  from old show ?case
  proof (cases rule: replace_cases [where x = x])
    case empty
    then show ?thesis using old by (simp add: replace_Nil)
  next
    case (hit z)
    have nz: "\<forall>o1 o2. old = o1 @ o2 \<and> o1 \<noteq> [] \<and> o2 \<noteq> [] \<and> suffix o1 z \<longrightarrow> \<not> prefix o2 y"
    proof (intro allI impI)
      fix o1 o2
      assume a: "old = o1 @ o2 \<and> o1 \<noteq> [] \<and> o2 \<noteq> [] \<and> suffix o1 z"
      then have "suffix o1 z" by simp
      then have "suffix o1 (old @ z)" by (rule suffix_appendI)
      then have "suffix o1 x" by (simp only: hit(1))
      with a ns show "\<not> prefix o2 y" by blast
    qed
    have IH: "replace old new (z @ y) = replace old new z @ replace old new y"
      using less.hyps [OF hit(2) nz] .
    have "replace old new (x @ y) = new @ replace old new (z @ y)"
      unfolding hit(1) using old by (simp add: replace_prefix)
    moreover have "replace old new x = new @ replace old new z"
      unfolding hit(1) using old by (simp add: replace_prefix)
    ultimately show ?thesis using IH by simp
  next
    case (miss c x')
    have np: "\<not> prefix old (x @ y)"
    proof
      assume "prefix old (x @ y)"
      then obtain z where z: "x @ y = old @ z" unfolding prefix_def by blast
      then obtain us where "x = old @ us \<and> us @ y = z \<or> x @ us = old \<and> y = us @ z"
        unfolding append_eq_append_conv2 by blast
      then show False
      proof
        assume "x = old @ us \<and> us @ y = z"
        then have "prefix old x" by simp
        with miss(2) show False by simp
      next
        assume b: "x @ us = old \<and> y = us @ z"
        have "us \<noteq> []"
        proof
          assume "us = []"
          with b have "prefix old x" by simp
          with miss(2) show False by simp
        qed
        moreover have "x \<noteq> []" using miss(1) by simp
        moreover have "old = x @ us" using b by simp
        moreover have "suffix x x" by simp
        moreover have "prefix us y" using b by simp
        ultimately show False using ns by blast
      qed
    qed
    have l: "length x' < length x" using miss(1) by simp
    have nx: "\<forall>o1 o2. old = o1 @ o2 \<and> o1 \<noteq> [] \<and> o2 \<noteq> [] \<and> suffix o1 x' \<longrightarrow> \<not> prefix o2 y"
    proof (intro allI impI)
      fix o1 o2
      assume a: "old = o1 @ o2 \<and> o1 \<noteq> [] \<and> o2 \<noteq> [] \<and> suffix o1 x'"
      then have "suffix o1 x'" by simp
      then have "suffix o1 (c # x')" by (rule suffix_ConsI)
      then have "suffix o1 x" by (simp only: miss(1))
      with a ns show "\<not> prefix o2 y" by blast
    qed
    have IH: "replace old new (x' @ y) = replace old new x' @ replace old new y"
      using less.hyps [OF l nx] .
    have "replace old new (x @ y) = c # replace old new (x' @ y)"
      using np old unfolding miss(1) by (simp add: replace_Cons)
    moreover have "replace old new x = c # replace old new x'"
      using miss(2) old unfolding miss(1) by (simp add: replace_Cons)
    ultimately show ?thesis using IH by simp
  qed
qed

lemma replace_barrier:
  assumes "old \<noteq> []" and "c \<notin> set old"
  shows "replace old new (x @ c # y) = replace old new x @ c # replace old new y"
proof -
  have "\<forall>o1 o2. old = o1 @ o2 \<and> o1 \<noteq> [] \<and> o2 \<noteq> [] \<and> suffix o1 x \<longrightarrow> \<not> prefix o2 (c # y)"
  proof (intro allI impI notI)
    fix o1 o2
    assume a: "old = o1 @ o2 \<and> o1 \<noteq> [] \<and> o2 \<noteq> [] \<and> suffix o1 x" and p: "prefix o2 (c # y)"
    then obtain o2' where "o2 = c # o2'" by (cases o2) auto
    then have "c \<in> set old" using a by simp
    with assms(2) show False by simp
  qed
  then have "replace old new (x @ c # y) = replace old new x @ replace old new (c # y)"
    by (rule replace_append [OF assms(1)])
  moreover have "\<not> prefix old (c # y)"
  proof
    assume "prefix old (c # y)"
    then have "c \<in> set old" using assms(1) by (cases old) auto
    with assms(2) show False by simp
  qed
  ultimately show ?thesis using assms(1) by (simp add: replace_Cons)
qed

lemma replace_char_map:
  "replace [c] [e] v = map (\<lambda>x. if x = c then e else x) v"
proof (induction v)
  case Nil
  show ?case by (simp add: replace_Nil)
next
  case (Cons a v)
  show ?case
  proof (cases "a = c")
    case True
    have "replace [c] [e] ([c] @ v) = [e] @ replace [c] [e] v" by (rule replace_prefix) simp
    then show ?thesis using True Cons by simp
  next
    case False
    then have "\<not> prefix [c] (a # v)" by simp
    then have "replace [c] [e] (a # v) = a # replace [c] [e] v" by (intro replace_Cons) simp_all
    then show ?thesis using False Cons by simp
  qed
qed

lemma replace_unchanged:
  assumes "old \<noteq> []" and "d \<in> set new"
  shows "d \<notin> set (replace old new x) \<Longrightarrow> replace old new x = x"
proof (induction "length x" arbitrary: x rule: less_induct)
  case less
  from assms(1) show ?case
  proof (cases rule: replace_cases [where x = x])
    case empty
    then show ?thesis using assms(1) by (simp add: replace_Nil)
  next
    case (hit z)
    have "replace old new x = new @ replace old new z"
      unfolding hit(1) using assms(1) by (simp add: replace_prefix)
    then have "d \<in> set (replace old new x)" using assms(2) by simp
    with less.prems show ?thesis by simp
  next
    case (miss c x')
    have r: "replace old new x = c # replace old new x'"
      using miss(2) assms(1) unfolding miss(1) by (simp add: replace_Cons)
    then have "d \<notin> set (replace old new x')" using less.prems by simp
    moreover have "length x' < length x" using miss(1) by simp
    ultimately have "replace old new x' = x'" using less.hyps by blast
    then show ?thesis using r miss(1) by simp
  qed
qed

subsection \<open>Replacing between delimiters\<close>

lemma replace_prefix_delim:
  assumes old: "old \<noteq> []" "hd old = d" and new: "new \<noteq> []" "hd new = d"
  shows "d \<notin> set X \<Longrightarrow> prefix (X @ [d]) (replace old new y) \<Longrightarrow> prefix (X @ [d]) y"
proof (induction "length y" arbitrary: y X rule: less_induct)
  case less
  obtain o' where o': "old = d # o'" using old by (cases old) auto
  obtain n' where n': "new = d # n'" using new by (cases new) auto
  from old(1) show ?case
  proof (cases rule: replace_cases [where x = y])
    case empty
    then show ?thesis using less.prems(2) old(1) by (simp add: replace_Nil)
  next
    case (hit z)
    have r: "replace old new y = d # n' @ replace old new z"
      unfolding hit(1) using old(1) n' by (simp add: replace_prefix)
    have "X = []"
    proof (cases X)
      case (Cons e X')
      then have "e = d" using less.prems(2) unfolding r by simp
      then show ?thesis using less.prems(1) Cons by simp
    qed simp
    then show ?thesis unfolding hit(1) o' by simp
  next
    case (miss c y')
    have r: "replace old new y = c # replace old new y'"
      using miss(2) old(1) unfolding miss(1) by (simp add: replace_Cons)
    have l: "length y' < length y" using miss(1) by simp
    show ?thesis
    proof (cases X)
      case Nil
      then have "c = d" using less.prems(2) unfolding r by simp
      then show ?thesis using Nil miss(1) by simp
    next
      case (Cons e X')
      then have e: "e = c" and p: "prefix (X' @ [d]) (replace old new y')"
        using less.prems(2) unfolding r by simp_all
      have "d \<notin> set X'" using less.prems(1) Cons by simp
      then have "prefix (X' @ [d]) y'" using less.hyps [OF l _ p] by blast
      then show ?thesis using Cons e miss(1) by simp
    qed
  qed
qed

lemma delim_split_eq:
  assumes "d \<notin> set X" and "X @ [d] = p @ d # q"
  shows "p = X \<and> q = []"
proof -
  have "takeWhile (\<lambda>c. c \<noteq> d) (X @ d # []) = X" using assms(1) by (rule takeWhile_neq_append)
  moreover have "takeWhile (\<lambda>c. c \<noteq> d) (p @ d # q) = takeWhile (\<lambda>c. c \<noteq> d) p"
    by (rule takeWhile_tail) simp
  ultimately have X: "X = takeWhile (\<lambda>c. c \<noteq> d) p" using assms(2) by simp
  have "length (takeWhile (\<lambda>c. c \<noteq> d) p) \<le> length p" by (rule length_takeWhile_le)
  then have 1: "length X \<le> length p" using X by simp
  have "length (X @ [d]) = length (p @ d # q)" using assms(2) by simp
  then have 2: "length X = length p + length q" by simp
  from 1 2 have q: "q = []" by simp
  then have "X @ [d] = p @ [d]" using assms(2) by simp
  then have "p = X" by simp
  with q show ?thesis by simp
qed

lemma no_straddle_left:
  assumes "d \<notin> set X" and "\<not> suffix (d # X) x"
  shows "\<forall>o1 o2. d # X @ [d] = o1 @ o2 \<and> o1 \<noteq> [] \<and> o2 \<noteq> [] \<and> suffix o1 x
           \<longrightarrow> \<not> prefix o2 (d # m)"
proof (intro allI impI notI)
  fix o1 o2
  assume a: "d # X @ [d] = o1 @ o2 \<and> o1 \<noteq> [] \<and> o2 \<noteq> [] \<and> suffix o1 x"
    and p: "prefix o2 (d # m)"
  obtain p1 where o1: "o1 = d # p1" using a by (cases o1) auto
  obtain q where o2: "o2 = d # q" using a p by (cases o2) auto
  have "X @ [d] = p1 @ d # q" using a unfolding o1 o2 by simp
  with assms(1) have "p1 = X \<and> q = []" by (rule delim_split_eq)
  then have "o1 = d # X" using o1 by simp
  then show False using a assms(2) by simp
qed

lemma no_straddle_right:
  assumes "d \<notin> set X" and "\<not> prefix (X @ [d]) y"
  shows "\<forall>o1 o2. d # X @ [d] = o1 @ o2 \<and> o1 \<noteq> [] \<and> o2 \<noteq> [] \<and> suffix o1 (m @ [d])
           \<longrightarrow> \<not> prefix o2 y"
proof (intro allI impI notI)
  fix o1 o2
  assume a: "d # X @ [d] = o1 @ o2 \<and> o1 \<noteq> [] \<and> o2 \<noteq> [] \<and> suffix o1 (m @ [d])"
    and p: "prefix o2 y"
  from a obtain o1' where o1: "o1 = o1' @ [d]" by auto
  show False
  proof (cases o1')
    case Nil
    then have "o2 = X @ [d]" using a o1 by simp
    with p assms(2) show False by simp
  next
    case (Cons e r)
    from a have eq: "d # X @ [d] = o1 @ o2" by blast
    have "d # X @ [d] = ((e # r) @ [d]) @ o2" using eq unfolding o1 Cons .
    then have "X @ [d] = r @ d # o2" by auto
    with assms(1) have "r = X \<and> o2 = []" by (rule delim_split_eq)
    then show False using a by simp
  qed
qed

subsection \<open>The normalization of Boolean literals and quotes\<close>

lemma normalize_quotes_map:
  "normalize_quotes v = map (\<lambda>x. if x = CHR 0x22 then CHR 0x27 else x) v"
  unfolding normalize_quotes_def by (rule replace_char_map)

lemma normalize_bools_quote:
  "normalize_bools (a @ CHR 0x22 # b) = normalize_bools a @ CHR 0x22 # normalize_bools b"
  unfolding normalize_bools_def by (simp add: replace_barrier)

subsection \<open>What replacing preserves\<close>

lemma replace_set:
  assumes "old \<noteq> []"
  shows "set (replace old new x) \<subseteq> set x \<union> set new"
proof (induction "length x" arbitrary: x rule: less_induct)
  case less
  from assms show ?case
  proof (cases rule: replace_cases [where x = x])
    case empty
    then show ?thesis using assms by (simp add: replace_Nil)
  next
    case (hit z)
    have "replace old new x = new @ replace old new z"
      unfolding hit(1) using assms by (simp add: replace_prefix)
    moreover have "set (replace old new z) \<subseteq> set z \<union> set new" using less.hyps [OF hit(2)] .
    moreover have "set z \<subseteq> set x" unfolding hit(1) by simp
    ultimately show ?thesis by auto
  next
    case (miss c x')
    have "replace old new x = c # replace old new x'"
      using miss(2) assms unfolding miss(1) by (simp add: replace_Cons)
    moreover have "length x' < length x" using miss(1) by simp
    then have "set (replace old new x') \<subseteq> set x' \<union> set new" by (rule less.hyps)
    ultimately show ?thesis using miss(1) by auto
  qed
qed

lemma replace_eq_Nil:
  assumes "old \<noteq> []" and "new \<noteq> []"
  shows "replace old new x = [] \<longleftrightarrow> x = []"
proof -
  from assms(1) show ?thesis
  proof (cases rule: replace_cases [where x = x])
    case empty
    then show ?thesis using assms by (simp add: replace_Nil)
  next
    case (hit z)
    have "replace old new x = new @ replace old new z"
      unfolding hit(1) using assms by (simp add: replace_prefix)
    then show ?thesis using assms hit(1) by simp
  next
    case (miss c x')
    have "replace old new x = c # replace old new x'"
      using miss(2) assms unfolding miss(1) by (simp add: replace_Cons)
    then show ?thesis using miss(1) by simp
  qed
qed

lemma replace_hd:
  assumes "old \<noteq> []" and "new \<noteq> []" and "x \<noteq> []"
  shows "hd (replace old new x) = hd x \<or> hd (replace old new x) = hd new"
proof -
  from assms(1) show ?thesis
  proof (cases rule: replace_cases [where x = x])
    case empty
    then show ?thesis using assms by simp
  next
    case (hit z)
    have "replace old new x = new @ replace old new z"
      unfolding hit(1) using assms by (simp add: replace_prefix)
    then show ?thesis using assms by simp
  next
    case (miss c x')
    have "replace old new x = c # replace old new x'"
      using miss(2) assms unfolding miss(1) by (simp add: replace_Cons)
    then show ?thesis using miss(1) by simp
  qed
qed

lemma replace_last:
  assumes "old \<noteq> []" and "new \<noteq> []"
  shows "x \<noteq> [] \<Longrightarrow> last (replace old new x) = last x \<or> last (replace old new x) = last new"
proof (induction "length x" arbitrary: x rule: less_induct)
  case less
  from assms(1) show ?case
  proof (cases rule: replace_cases [where x = x])
    case empty
    then show ?thesis using less.prems by simp
  next
    case (hit z)
    have r: "replace old new x = new @ replace old new z"
      unfolding hit(1) using assms by (simp add: replace_prefix)
    show ?thesis
    proof (cases "z = []")
      case True
      then show ?thesis using r assms by (simp add: replace_Nil)
    next
      case False
      then have rz: "replace old new z \<noteq> []" using replace_eq_Nil [OF assms] by simp
      have "last (replace old new z) = last z \<or> last (replace old new z) = last new"
        using less.hyps [OF hit(2) False] .
      moreover have "last x = last z" unfolding hit(1) using False by simp
      moreover have "last (replace old new x) = last (replace old new z)" using r rz by simp
      ultimately show ?thesis by simp
    qed
  next
    case (miss c x')
    have r: "replace old new x = c # replace old new x'"
      using miss(2) assms unfolding miss(1) by (simp add: replace_Cons)
    show ?thesis
    proof (cases "x' = []")
      case True
      then show ?thesis using r miss(1) assms by (simp add: replace_Nil)
    next
      case False
      then have rz: "replace old new x' \<noteq> []" using replace_eq_Nil [OF assms] by simp
      have "length x' < length x" using miss(1) by simp
      then have "last (replace old new x') = last x' \<or> last (replace old new x') = last new"
        using less.hyps False by blast
      moreover have "last x = last x'" unfolding miss(1) using False by simp
      moreover have "last (replace old new x) = last (replace old new x')" using r rz by simp
      ultimately show ?thesis by simp
    qed
  qed
qed

lemma prefix_map_fixed:
  assumes "\<And>c y. c \<in> set old \<Longrightarrow> (q y = c) = (y = c)"
  shows "prefix old (map q x) \<longleftrightarrow> prefix old x"
  using assms
proof (induction old arbitrary: x)
  case Nil
  show ?case by simp
next
  case (Cons e es)
  show ?case
  proof (cases x)
    case Nil
    then show ?thesis by simp
  next
    case (Cons c xs)
    have "(q c = e) = (c = e)" using Cons.prems [of e c] by simp
    moreover have "prefix es (map q xs) \<longleftrightarrow> prefix es xs"
      using Cons.IH [of xs] Cons.prems by simp
    ultimately show ?thesis using Cons by auto
  qed
qed

lemma replace_map_commute:
  assumes old: "old \<noteq> []" and fx: "\<And>c y. c \<in> set old \<Longrightarrow> (q y = c) = (y = c)"
    and new: "map q new = new"
  shows "replace old new (map q x) = map q (replace old new x)"
proof (induction "length x" arbitrary: x rule: less_induct)
  case less
  have qold: "map q old = old"
  proof (rule map_idI)
    fix c assume "c \<in> set old"
    then show "q c = c" using fx [of c c] by simp
  qed
  from old show ?case
  proof (cases rule: replace_cases [where x = x])
    case empty
    then show ?thesis using old by (simp add: replace_Nil)
  next
    case (hit z)
    have "replace old new (map q x) = new @ replace old new (map q z)"
    proof -
      have "map q x = old @ map q z" unfolding hit(1) using qold by simp
      then show ?thesis using old by (simp add: replace_prefix)
    qed
    moreover have "replace old new x = new @ replace old new z"
      unfolding hit(1) using old by (simp add: replace_prefix)
    moreover have "replace old new (map q z) = map q (replace old new z)"
      using less.hyps [OF hit(2)] .
    ultimately show ?thesis using new by simp
  next
    case (miss c x')
    have "\<not> prefix old (map q x)" using miss(2) prefix_map_fixed [of old q x] fx by blast
    then have "replace old new (map q x) = q c # replace old new (map q x')"
      using old unfolding miss(1) by (simp add: replace_Cons)
    moreover have "replace old new x = c # replace old new x'"
      using miss(2) old unfolding miss(1) by (simp add: replace_Cons)
    moreover have "length x' < length x" using miss(1) by simp
    then have "replace old new (map q x') = map q (replace old new x')" by (rule less.hyps)
    ultimately show ?thesis by simp
  qed
qed

lemma join_Cons_more: "rest \<noteq> [] \<Longrightarrow> join sep (w # rest) = w @ sep @ join sep rest"
  by (cases rest) simp_all

lemma replace_join:
  assumes "old \<noteq> []" and "CHR '','' \<notin> set old" and "CHR '' '' \<notin> set old"
  shows "replace old new (join '', '' items) = join '', '' (map (replace old new) items)"
proof (induction items)
  case Nil
  show ?case using assms(1) by (simp add: replace_Nil)
next
  case (Cons w rest)
  show ?case
  proof (cases "rest = []")
    case True
    then show ?thesis by simp
  next
    case False
    have "replace old new (w @ CHR '','' # (CHR '' '' # join '', '' rest))
          = replace old new w @ CHR '','' # replace old new ([] @ CHR '' '' # join '', '' rest)"
      using replace_barrier [OF assms(1,2)] by simp
    also have "replace old new ([] @ CHR '' '' # join '', '' rest)
          = replace old new [] @ CHR '' '' # replace old new (join '', '' rest)"
      by (rule replace_barrier [OF assms(1,3)])
    finally have "replace old new (w @ CHR '','' # (CHR '' '' # join '', '' rest))
          = replace old new w @ CHR '','' # CHR '' '' # join '', '' (map (replace old new) rest)"
      using Cons.IH assms(1) by (simp add: replace_Nil)
    then show ?thesis using False by (simp add: join_Cons_more)
  qed
qed

subsection \<open>Splitting and joining\<close>

lemma split_on_nonempty: "split_on c v \<noteq> []"
  by (induction v) (auto split: list.splits)

lemma split_on_free: "i \<in> set (split_on c v) \<Longrightarrow> c \<notin> set i"
proof (induction v arbitrary: i)
  case Nil
  then show ?case by simp
next
  case (Cons x v)
  obtain w ws where s: "split_on c v = w # ws" using split_on_nonempty by (cases "split_on c v") auto
  show ?case
  proof (cases "x = c")
    case True
    then show ?thesis using Cons by auto
  next
    case False
    then have "split_on c (x # v) = (x # w) # ws" using s by simp
    then have "i = x # w \<or> i \<in> set ws" using Cons.prems by simp
    then show ?thesis using Cons.IH s False by auto
  qed
qed

lemma split_on_no_sep: "c \<notin> set v \<Longrightarrow> split_on c v = [v]"
  by (induction v) auto

lemma split_on_append: "c \<notin> set i \<Longrightarrow> split_on c (i @ c # rest) = i # split_on c rest"
  by (induction i) auto


lemma split_on_length: "c \<in> set v \<Longrightarrow> 2 \<le> length (split_on c v)"
proof (induction v)
  case Nil
  then show ?case by simp
next
  case (Cons x v)
  obtain w ws where s: "split_on c v = w # ws" using split_on_nonempty by (cases "split_on c v") auto
  show ?case
  proof (cases "x = c")
    case True
    then show ?thesis using s by simp
  next
    case False
    then have "c \<in> set v" using Cons.prems by simp
    then have "2 \<le> length (split_on c v)" by (rule Cons.IH)
    then show ?thesis using False s by simp
  qed
qed


lemma split_join_comma_space:
  assumes "\<forall>i\<in>set items. CHR '','' \<notin> set i" and "items \<noteq> []"
  shows "split_on (CHR '','') (join '', '' items) = hd items # map ((#) (CHR '' '')) (tl items)"
  using assms
proof (induction items)
  case Nil
  then show ?case by simp
next
  case (Cons w rest)
  have free: "CHR '','' \<notin> set w" using Cons.prems by simp
  show ?case
  proof (cases "rest = []")
    case True
    then show ?thesis using free by (simp add: split_on_no_sep)
  next
    case False
    have IH: "split_on (CHR '','') (join '', '' rest) = hd rest # map ((#) (CHR '' '')) (tl rest)"
      using Cons False by simp
    have "split_on (CHR '','') (w @ CHR '','' # (CHR '' '' # join '', '' rest))
          = w # split_on (CHR '','') (CHR '' '' # join '', '' rest)"
      using free by (rule split_on_append)
    moreover have "split_on (CHR '','') (CHR '' '' # join '', '' rest)
          = (CHR '' '' # hd rest) # map ((#) (CHR '' '')) (tl rest)"
      using IH by simp
    moreover have "map ((#) (CHR '' '')) rest = (CHR '' '' # hd rest) # map ((#) (CHR '' '')) (tl rest)"
      using False by (cases rest) simp_all
    ultimately show ?thesis using False by (simp add: join_Cons_more)
  qed
qed

subsection \<open>Values that the formatter leaves alone\<close>

lemma tidy_strip: "tidy x \<Longrightarrow> strip x = x"
  unfolding tidy_def by (rule strip_of_id) blast

lemma strip_space_Cons: "is_space c \<Longrightarrow> strip (c # x) = strip x"
  by (simp add: strip_of_def lstrip_of_def)


lemma strip_tidy:
  assumes "CHR '','' \<notin> set x"
  shows "tidy (strip x)"
proof (cases "strip x = []")
  case True
  then show ?thesis by (simp add: tidy_def)
next
  case False
  have "last (strip x) \<in> set (strip x)" using False by simp
  then have "last (strip x) \<in> set x" using set_strip_of by blast
  then have "last (strip x) \<noteq> CHR '',''" using assms by auto
  then show ?thesis
    unfolding tidy_def using strip_of_hd [OF False] strip_of_last [OF False] by simp
qed

lemma replace_tidy:
  assumes "old \<noteq> []" and "new \<noteq> []" and "tidy new" and "tidy x"
  shows "tidy (replace old new x)"
proof (cases "x = []")
  case True
  then show ?thesis using assms(1) by (simp add: replace_Nil tidy_def)
next
  case False
  then have x: "\<not> is_space (hd x)" "\<not> is_space (last x)" "last x \<noteq> CHR '',''"
    using assms(4) by (simp_all add: tidy_def)
  have n: "\<not> is_space (hd new)" "\<not> is_space (last new)" "last new \<noteq> CHR '',''"
    using assms(2,3) by (simp_all add: tidy_def)
  have h: "hd (replace old new x) = hd x \<or> hd (replace old new x) = hd new"
    using replace_hd [OF assms(1,2) False] .
  have l: "last (replace old new x) = last x \<or> last (replace old new x) = last new"
    using replace_last [OF assms(1,2) False] .
  show ?thesis unfolding tidy_def using h l x n by auto
qed

lemma map_quote_tidy: "tidy x \<Longrightarrow> tidy (map quote_map x)"
proof (cases "x = []")
  case True
  then show ?thesis by (simp add: tidy_def)
next
  case False
  assume t: "tidy x"
  have q: "\<not> is_space (CHR 0x27)" by (simp add: is_space_def)
  have "hd (map quote_map x) = quote_map (hd x)" using False by (simp add: hd_map)
  moreover have "last (map quote_map x) = quote_map (last x)" using False by (simp add: last_map)
  ultimately show ?thesis using t False q unfolding tidy_def by auto
qed

lemma normalize_bools_tidy: "tidy x \<Longrightarrow> tidy (normalize_bools x)"
proof -
  assume t: "tidy x"
  have tt: "tidy ''.true.''" and tf: "tidy ''.false.''"
    by (simp_all add: tidy_def is_space_def)
  show ?thesis unfolding normalize_bools_def
    by (intro replace_tidy tt tf t) simp_all
qed

lemma normalize_quotes_tidy: "tidy x \<Longrightarrow> tidy (normalize_quotes x)"
  unfolding normalize_quotes_map by (rule map_quote_tidy)

lemma normalize_bools_set:
  "set (normalize_bools x) \<subseteq> set x \<union> set ''.truefalse''"
proof -
  let ?r1 = "replace ''.t.'' ''.true.'' x"
  let ?r2 = "replace ''.TRUE.'' ''.true.'' ?r1"
  let ?r3 = "replace ''.f.'' ''.false.'' ?r2"
  have 1: "set ?r1 \<subseteq> set x \<union> set ''.true.''" by (rule replace_set) simp
  have 2: "set ?r2 \<subseteq> set ?r1 \<union> set ''.true.''" by (rule replace_set) simp
  have 3: "set ?r3 \<subseteq> set ?r2 \<union> set ''.false.''" by (rule replace_set) simp
  have 4: "set (replace ''.FALSE.'' ''.false.'' ?r3) \<subseteq> set ?r3 \<union> set ''.false.''"
    by (rule replace_set) simp
  have t: "set ''.true.'' \<subseteq> set ''.truefalse''" by simp
  have f: "set ''.false.'' \<subseteq> set ''.truefalse''" by simp
  show ?thesis unfolding normalize_bools_def using 1 2 3 4 t f by blast
qed

lemma normalize_quotes_set:
  "set (normalize_quotes x) \<subseteq> set x \<union> {CHR 0x27}"
  unfolding normalize_quotes_map by auto

lemma normalize_bools_join:
  "normalize_bools (join '', '' items) = join '', '' (map normalize_bools items)"
  unfolding normalize_bools_def by (simp add: replace_join comp_def)

lemma map_join: "map f (join sep xs) = join (map f sep) (map (map f) xs)"
proof (induction xs)
  case Nil
  show ?case by simp
next
  case (Cons w rest)
  then show ?case by (cases "rest = []") (simp_all add: join_Cons_more)
qed

lemma normalize_quotes_join:
  "normalize_quotes (join '', '' items) = join '', '' (map normalize_quotes items)"
proof -
  have "map quote_map (join '', '' items) = join '', '' (map (map quote_map) items)"
    by (simp add: map_join)
  moreover have "map (map quote_map) items = map normalize_quotes items"
    by (simp add: normalize_quotes_map)
  ultimately show ?thesis by (simp add: normalize_quotes_map)
qed

lemma normalize_bools_quotes_commute:
  "normalize_bools (normalize_quotes x) = normalize_quotes (normalize_bools x)"
proof -
  have c: "replace old new (map quote_map y) = map quote_map (replace old new y)"
    if "old \<noteq> []" "CHR 0x22 \<notin> set old" "CHR 0x27 \<notin> set old" "map quote_map new = new"
    for old new y
  proof (rule replace_map_commute [OF that(1) _ that(4)])
    fix c y
    assume "c \<in> set old"
    then have "c \<noteq> CHR 0x22" "c \<noteq> CHR 0x27" using that(2,3) by auto
    then show "((if y = CHR 0x22 then CHR 0x27 else y) = c) = (y = c)" by auto
  qed
  show ?thesis
    unfolding normalize_bools_def normalize_quotes_map by (simp add: c)
qed

lemma normalize_quotes_idem: "normalize_quotes (normalize_quotes x) = normalize_quotes x"
  by (simp add: normalize_quotes_map)

lemma join_contains_sep:
  "2 \<le> length xs \<Longrightarrow> set sep \<subseteq> set (join sep xs)"
proof (cases xs)
  case Nil
  assume "2 \<le> length xs"
  with Nil show ?thesis by simp
next
  case (Cons w rest)
  assume "2 \<le> length xs"
  then have "rest \<noteq> []" using Cons by auto
  then show ?thesis using Cons by (auto simp: join_Cons_more)
qed




lemma normalize_list_stable:
  assumes "tidy v"
  shows "normalize_list (normalize_quotes (normalize_bools (normalize_list v)))
         = normalize_quotes (normalize_bools (normalize_list v))"
proof (cases "CHR '','' \<in> set v")
  case False
  have "set (normalize_quotes (normalize_bools v))
        \<subseteq> set v \<union> set ''.truefalse'' \<union> {CHR 0x27}"
    using normalize_quotes_set [of "normalize_bools v"] normalize_bools_set [of v] by blast
  moreover have "CHR '','' \<notin> set v \<union> set ''.truefalse'' \<union> {CHR 0x27}" using False by simp
  ultimately have "CHR '','' \<notin> set (normalize_quotes (normalize_bools v))" by blast
  then show ?thesis using False by (simp add: normalize_list_def)
next
  case True
  define segs where "segs = split_on (CHR '','') v"
  define items where "items = map (\<lambda>s. normalize_quotes (normalize_bools (strip s))) segs"
  have len: "2 \<le> length segs" unfolding segs_def using True by (rule split_on_length)
  have nl: "normalize_list v = join '', '' (map strip segs)"
    using True by (simp add: normalize_list_def segs_def)
  have v': "normalize_quotes (normalize_bools (normalize_list v)) = join '', '' items"
    unfolding nl items_def by (simp add: normalize_bools_join normalize_quotes_join comp_def)
  have li: "2 \<le> length items" using len unfolding items_def by simp
  then have inon: "items \<noteq> []" by auto
  have props: "CHR '','' \<notin> set i \<and> tidy i" if "i \<in> set items" for i
  proof -
    from that obtain s where s: "s \<in> set segs" and i: "i = normalize_quotes (normalize_bools (strip s))"
      unfolding items_def by auto
    have f: "CHR '','' \<notin> set s" using s unfolding segs_def by (rule split_on_free)
    then have f1: "CHR '','' \<notin> set (strip s)" using set_strip_of by blast
    have "set i \<subseteq> set (strip s) \<union> set ''.truefalse'' \<union> {CHR 0x27}"
      unfolding i
      using normalize_quotes_set [of "normalize_bools (strip s)"] normalize_bools_set [of "strip s"]
      by blast
    moreover have "CHR '','' \<notin> set (strip s) \<union> set ''.truefalse'' \<union> {CHR 0x27}" using f1 by simp
    ultimately have "CHR '','' \<notin> set i" by blast
    moreover have "tidy i" unfolding i
      by (intro normalize_quotes_tidy normalize_bools_tidy strip_tidy f)
    ultimately show ?thesis by simp
  qed
  have free: "\<forall>i\<in>set items. CHR '','' \<notin> set i" using props by blast
  have "set '', '' \<subseteq> set (join '', '' items)" using li by (rule join_contains_sep)
  then have c: "CHR '','' \<in> set (join '', '' items)" by simp
  have sp: "split_on (CHR '','') (join '', '' items) = hd items # map ((#) (CHR '' '')) (tl items)"
    using free inon by (rule split_join_comma_space)
  have sh: "strip (hd items) = hd items" using props inon by (simp add: tidy_strip)
  have one: "strip (CHR '' '' # i) = i" if "i \<in> set (tl items)" for i
  proof -
    have "i \<in> set items" using that inon by (meson list.set_sel(2))
    then have "tidy i" using props by blast
    then have "strip i = i" by (rule tidy_strip)
    moreover have "strip (CHR '' '' # i) = strip i"
      by (rule strip_space_Cons) (simp add: is_space_def)
    ultimately show ?thesis by simp
  qed
  have "map (\<lambda>i. strip (CHR '' '' # i)) (tl items) = tl items"
    by (rule map_idI) (rule one)
  then have "map strip (hd items # map ((#) (CHR '' '')) (tl items)) = hd items # tl items"
    using sh by (simp add: comp_def)
  then have "map strip (split_on (CHR '','') (join '', '' items)) = items"
    using sp inon by simp
  then have "normalize_list (join '', '' items) = join '', '' items"
    using c by (simp add: normalize_list_def)
  then show ?thesis unfolding v' .
qed

lemma value_fixed:
  assumes "tidy v"
    and "normalize_bools (normalize_bools (normalize_list v)) = normalize_bools (normalize_list v)"
  shows "normalize_quotes (normalize_bools (normalize_list
           (normalize_quotes (normalize_bools (normalize_list v)))))
         = normalize_quotes (normalize_bools (normalize_list v))"
  by (simp only: normalize_list_stable [OF assms(1)] normalize_bools_quotes_commute assms(2)
       normalize_quotes_idem)

subsection \<open>Reading a formatted line back\<close>






lemma in_set_rstrip_of: "x \<in> set s \<Longrightarrow> \<not> P x \<Longrightarrow> x \<in> set (rstrip_of P s)"
  unfolding rstrip_of_def using in_set_dropWhile [of x "rev s" P] by simp



subsection \<open>Replacing a field between two delimiters\<close>

lemma replace_skip:
  assumes "old \<noteq> []" and "hd old \<notin> set m"
  shows "replace old new (m @ y) = m @ replace old new y"
  using assms(2)
proof (induction m)
  case Nil
  then show ?case by simp
next
  case (Cons c m)
  have "\<not> prefix old (c # m @ y)" using assms(1) Cons.prems by (cases old) auto
  then have "replace old new (c # m @ y) = c # replace old new (m @ y)"
    using assms(1) by (simp add: replace_Cons)
  then show ?case using Cons by simp
qed

lemma field_prefix_eq:
  assumes "d \<notin> set X" and "d \<notin> set M" and "prefix (X @ [d]) (M @ d # b)"
  shows "X = M"
proof -
  from assms(3) obtain r where r: "M @ d # b = (X @ [d]) @ r" unfolding prefix_def by blast
  have "takeWhile (\<lambda>c. c \<noteq> d) (M @ d # b) = M" using assms(2) by (rule takeWhile_neq_append)
  moreover have "takeWhile (\<lambda>c. c \<noteq> d) (X @ d # r) = X" using assms(1) by (rule takeWhile_neq_append)
  moreover have "M @ d # b = X @ d # r" using r by simp
  ultimately show ?thesis by simp
qed

lemma field_suffix_eq:
  assumes "d \<notin> set Y" and "suffix (d # W @ [d]) (d # Y @ [d])"
  shows "W = Y"
proof -
  from assms(2) obtain u where u: "d # Y @ [d] = u @ d # W @ [d]" unfolding suffix_def by blast
  then have e: "d # Y = u @ d # W" by (metis append.assoc append_Cons butlast_snoc)
  show ?thesis
  proof (cases u)
    case Nil
    then show ?thesis using e by simp
  next
    case (Cons c u')
    then have "Y = u' @ d # W" using e by simp
    then have "d \<in> set Y" by simp
    then show ?thesis using assms(1) by simp
  qed
qed

lemma replace_single:
  "replace (d # X @ [d]) new [d] = [d]"
proof -
  have "\<not> prefix (d # X @ [d]) [d]" by simp
  then have "replace (d # X @ [d]) new [d] = d # replace (d # X @ [d]) new []"
    by (simp add: replace_Cons)
  then show ?thesis by (simp add: replace_Nil)
qed

lemma replace_hit:
  "replace (d # X @ [d]) new ((d # X @ [d]) @ z) = new @ replace (d # X @ [d]) new z"
  by (rule replace_prefix) simp

lemma replace_only_field:
  assumes "d \<notin> set W"
  shows "replace (d # X @ [d]) (d # Y @ [d]) x = W @ [d] \<Longrightarrow> x = W @ [d]"
  using assms
proof (induction W arbitrary: x)
  case Nil
  have old: "d # X @ [d] \<noteq> []" by simp
  from old show ?case
  proof (cases rule: replace_cases [where x = x])
    case empty
    then show ?thesis using Nil.prems(1) by (simp add: replace_Nil)
  next
    case (hit z)
    have "replace (d # X @ [d]) (d # Y @ [d]) x
          = (d # Y @ [d]) @ replace (d # X @ [d]) (d # Y @ [d]) z"
      unfolding hit(1) by (rule replace_hit)
    then show ?thesis using Nil.prems(1) by simp
  next
    case (miss c x')
    have r: "replace (d # X @ [d]) (d # Y @ [d]) x = c # replace (d # X @ [d]) (d # Y @ [d]) x'"
      using miss(2) unfolding miss(1) by (simp add: replace_Cons)
    have "c # replace (d # X @ [d]) (d # Y @ [d]) x' = [d]"
      using Nil.prems(1) unfolding r by simp
    then have c: "c = d" and e: "replace (d # X @ [d]) (d # Y @ [d]) x' = []"
      by simp_all
    have "x' = []" using e replace_eq_Nil [of "d # X @ [d]" "d # Y @ [d]" x'] by simp
    then show ?thesis using miss(1) c by simp
  qed
next
  case (Cons w W)
  have old: "d # X @ [d] \<noteq> []" by simp
  have wd: "w \<noteq> d" and dW: "d \<notin> set W" using Cons.prems(2) by auto
  from old show ?case
  proof (cases rule: replace_cases [where x = x])
    case empty
    then show ?thesis using Cons.prems(1) by (simp add: replace_Nil)
  next
    case (hit z)
    have "replace (d # X @ [d]) (d # Y @ [d]) x
          = (d # Y @ [d]) @ replace (d # X @ [d]) (d # Y @ [d]) z"
      unfolding hit(1) by (rule replace_hit)
    then show ?thesis using Cons.prems(1) wd by simp
  next
    case (miss c x')
    have r: "replace (d # X @ [d]) (d # Y @ [d]) x = c # replace (d # X @ [d]) (d # Y @ [d]) x'"
      using miss(2) unfolding miss(1) by (simp add: replace_Cons)
    have "c # replace (d # X @ [d]) (d # Y @ [d]) x' = w # W @ [d]"
      using Cons.prems(1) unfolding r by simp
    then have c: "c = w" and e: "replace (d # X @ [d]) (d # Y @ [d]) x' = W @ [d]"
      by simp_all
    have "x' = W @ [d]" using Cons.IH [OF e dW] .
    then show ?thesis using miss(1) c by simp
  qed
qed

lemma replace_suffix_field:
  assumes W: "d \<notin> set W" and Y: "d \<notin> set Y"
  shows "suffix (d # W @ [d]) (replace (d # X @ [d]) (d # Y @ [d]) x) \<Longrightarrow>
         suffix (d # W @ [d]) x \<or> W = Y"
proof (induction "length x" arbitrary: x rule: less_induct)
  case less
  let ?old = "d # X @ [d]" and ?new = "d # Y @ [d]" and ?S = "d # W @ [d]"
  have old: "?old \<noteq> []" by simp
  from old show ?case
  proof (cases rule: replace_cases [where x = x])
    case empty
    then show ?thesis using less.prems by (simp add: replace_Nil)
  next
    case (hit z)
    have r: "replace ?old ?new x = ?new @ replace ?old ?new z"
      unfolding hit(1) by (rule replace_hit)
    have viaz: "suffix ?S x \<or> W = Y" if "suffix ?S (replace ?old ?new z)"
    proof -
      from less.hyps [OF hit(2) that] show ?thesis
      proof
        assume "suffix ?S z"
        then have "suffix ?S (?old @ z)" by (rule suffix_appendI)
        then have "suffix ?S x" by (simp only: hit(1))
        then show ?thesis by simp
      next
        assume "W = Y"
        then show ?thesis by simp
      qed
    qed
    from less.prems have "suffix ?S (?new @ replace ?old ?new z)" by (simp only: r)
    then consider (a) "suffix ?S (replace ?old ?new z)"
      | (b) xs' where "?S = xs' @ replace ?old ?new z" and "suffix xs' ?new"
      unfolding suffix_append by blast
    then show ?thesis
    proof cases
      case a
      then show ?thesis by (rule viaz)
    next
      case b
      show ?thesis
      proof (cases "replace ?old ?new z = []")
        case True
        then have "suffix ?S ?new" using b by simp
        with Y have "W = Y" by (rule field_suffix_eq)
        then show ?thesis by simp
      next
        case False
        show ?thesis
        proof (cases xs')
          case Nil
          then have "suffix ?S (replace ?old ?new z)" using b(1) by simp
          then show ?thesis by (rule viaz)
        next
          case (Cons e p)
          have "d # W @ [d] = e # (p @ replace ?old ?new z)"
            using b(1) by (simp only: Cons append_Cons)
          then have Wp: "W @ [d] = p @ replace ?old ?new z"
            by (rule list.inject [THEN iffD1, THEN conjunct2])
          have "p = []"
          proof (rule ccontr)
            assume pn: "p \<noteq> []"
            obtain zs where zs: "?new = zs @ xs'" using b(2) unfolding suffix_def by blast
            have "xs' \<noteq> []" using Cons by simp
            then have "last (zs @ xs') = last xs'" by (rule last_appendR)
            then have "last ?new = last xs'" by (simp only: zs)
            moreover have "last ?new = d" by simp
            moreover have "last xs' = last p" using Cons pn by simp
            ultimately have "last p = d" by simp
            then have dp: "d \<in> set p" using pn by (metis last_in_set)
            obtain q where q: "replace ?old ?new z = q @ [d]"
              using Wp False by (metis append_butlast_last_id last_appendR last_snoc)
            have "W = p @ q" using Wp unfolding q by simp
            then show False using W dp by simp
          qed
          then have "replace ?old ?new z = W @ [d]" using Wp by simp
          with W have "z = W @ [d]" by (rule replace_only_field)
          then have "x = (d # X) @ ?S" using hit(1) by simp
          then have "suffix ?S x" unfolding suffix_def by blast
          then show ?thesis by simp
        qed
      qed
    qed
  next
    case (miss c x')
    have r: "replace ?old ?new x = c # replace ?old ?new x'"
      using miss(2) unfolding miss(1) by (simp add: replace_Cons)
    have l: "length x' < length x" using miss(1) by simp
    from less.prems have "suffix ?S (c # replace ?old ?new x')" by (simp only: r)
    then consider (a) "?S = c # replace ?old ?new x'" | (b) "suffix ?S (replace ?old ?new x')"
      unfolding suffix_Cons by blast
    then show ?thesis
    proof cases
      case a
      then have c: "c = d" by (rule list.inject [THEN iffD1, THEN conjunct1, symmetric])
      from a have "W @ [d] = replace ?old ?new x'"
        by (rule list.inject [THEN iffD1, THEN conjunct2])
      then have "replace ?old ?new x' = W @ [d]" by (rule sym)
      with W have "x' = W @ [d]" by (rule replace_only_field)
      then have "x = ?S" using c miss(1) by simp
      then show ?thesis by simp
    next
      case b
      from less.hyps [OF l b] show ?thesis
      proof
        assume "suffix ?S x'"
        then have "suffix ?S (c # x')" by (rule suffix_ConsI)
        then have "suffix ?S x" by (simp only: miss(1))
        then show ?thesis by simp
      next
        assume "W = Y"
        then show ?thesis by simp
      qed
    qed
  qed
qed

lemma replace_prefix_field:
  assumes W: "d \<notin> set W" and Y: "d \<notin> set Y"
    and p: "prefix (d # W @ [d]) (replace (d # X @ [d]) (d # Y @ [d]) x)"
  shows "prefix (d # W @ [d]) x \<or> W = Y"
proof -
  let ?old = "d # X @ [d]" and ?new = "d # Y @ [d]" and ?S = "d # W @ [d]"
  have old: "?old \<noteq> []" by simp
  from old show ?thesis
  proof (cases rule: replace_cases [where x = x])
    case empty
    then show ?thesis using p by (simp add: replace_Nil)
  next
    case (hit z)
    have r: "replace ?old ?new x = ?new @ replace ?old ?new z"
      unfolding hit(1) by (rule replace_hit)
    have "prefix (W @ [d]) (Y @ d # replace ?old ?new z)" using p unfolding r by simp
    with W Y have "W = Y" by (rule field_prefix_eq)
    then show ?thesis by simp
  next
    case (miss c x')
    have r: "replace ?old ?new x = c # replace ?old ?new x'"
      using miss(2) unfolding miss(1) by (simp add: replace_Cons)
    have pc: "prefix (d # W @ [d]) (c # replace ?old ?new x')" using p unfolding r .
    then have c: "c = d" by simp
    have q: "prefix (W @ [d]) (replace ?old ?new x')" using pc unfolding c by simp
    have "prefix (W @ [d]) x'"
      using replace_prefix_delim [of ?old d ?new W x'] W q by simp
    then show ?thesis using c miss(1) by simp
  qed
qed

lemma replace_keeps_last:
  "replace (d # X @ [d]) (d # Y @ [d]) (a @ [d])
   = butlast (replace (d # X @ [d]) (d # Y @ [d]) (a @ [d])) @ [d]"
proof -
  let ?r = "replace (d # X @ [d]) (d # Y @ [d]) (a @ [d])"
  have n: "?r \<noteq> []" by (simp add: replace_eq_Nil)
  have "last ?r = last (a @ [d]) \<or> last ?r = last (d # Y @ [d])"
    by (rule replace_last) simp_all
  then have "last ?r = d" by auto
  with n show ?thesis by (metis append_butlast_last_id)
qed

lemma replace_keeps_hd:
  "replace (d # X @ [d]) (d # Y @ [d]) (d # b)
   = d # tl (replace (d # X @ [d]) (d # Y @ [d]) (d # b))"
proof -
  let ?r = "replace (d # X @ [d]) (d # Y @ [d]) (d # b)"
  have n: "?r \<noteq> []" by (simp add: replace_eq_Nil)
  have "hd ?r = hd (d # b) \<or> hd ?r = hd (d # Y @ [d])"
    by (rule replace_hd) simp_all
  then have "hd ?r = d" by auto
  with n show ?thesis by (metis list.collapse)
qed

lemma pass_inert:
  assumes X: "d \<notin> set X" and M: "d \<notin> set M" and ne: "M \<noteq> X"
  shows "replace (d # X @ [d]) (d # Y @ [d]) (a @ d # M @ d # b)
         = butlast (replace (d # X @ [d]) (d # Y @ [d]) (a @ [d])) @ d # M
           @ d # tl (replace (d # X @ [d]) (d # Y @ [d]) (d # b))"
proof -
  let ?old = "d # X @ [d]" and ?new = "d # Y @ [d]"
  have np: "\<not> prefix (X @ [d]) (M @ d # b)" using field_prefix_eq [OF X M] ne by blast
  have "replace ?old ?new ((a @ [d]) @ (M @ d # b))
        = replace ?old ?new (a @ [d]) @ replace ?old ?new (M @ d # b)"
    by (rule replace_append) (simp, rule no_straddle_right [OF X np])
  also have "replace ?old ?new (M @ d # b) = M @ replace ?old ?new (d # b)"
    by (rule replace_skip) (use M in simp_all)
  finally have "replace ?old ?new (a @ d # M @ d # b)
        = replace ?old ?new (a @ [d]) @ M @ replace ?old ?new (d # b)" by simp
  also have "\<dots> = (butlast (replace ?old ?new (a @ [d])) @ [d]) @ M
                   @ (d # tl (replace ?old ?new (d # b)))"
    using replace_keeps_last [of d X Y a] replace_keeps_hd [of d X Y b] by simp
  finally show ?thesis by simp
qed

lemma pass_active_left:
  assumes X: "d \<notin> set X" and s: "\<not> suffix (d # X) a"
  shows "replace (d # X @ [d]) (d # Y @ [d]) (a @ (d # X @ [d]) @ y)
         = butlast (replace (d # X @ [d]) (d # Y @ [d]) (a @ [d])) @ (d # Y @ [d])
           @ replace (d # X @ [d]) (d # Y @ [d]) y"
proof -
  let ?old = "d # X @ [d]" and ?new = "d # Y @ [d]"
  have "replace ?old ?new (a @ (d # (X @ [d]) @ y))
        = replace ?old ?new a @ replace ?old ?new (d # (X @ [d]) @ y)"
    by (rule replace_append) (simp, rule no_straddle_left [OF X s])
  moreover have "replace ?old ?new (?old @ y) = ?new @ replace ?old ?new y"
    by (rule replace_hit)
  moreover have "replace ?old ?new (a @ d # []) = replace ?old ?new a @ replace ?old ?new (d # [])"
    by (rule replace_append) (simp, rule no_straddle_left [OF X s])
  then have "butlast (replace ?old ?new (a @ [d])) = replace ?old ?new a"
    by (simp add: replace_single)
  ultimately show ?thesis by simp
qed

lemma pass_active:
  assumes X: "d \<notin> set X" and s: "\<not> suffix (d # X) a" and p: "\<not> prefix (X @ [d]) b"
  shows "replace (d # X @ [d]) (d # Y @ [d]) (a @ d # X @ d # b)
         = butlast (replace (d # X @ [d]) (d # Y @ [d]) (a @ [d])) @ d # Y
           @ d # tl (replace (d # X @ [d]) (d # Y @ [d]) (d # b))"
proof -
  let ?old = "d # X @ [d]" and ?new = "d # Y @ [d]"
  have "\<not> prefix ?old (d # b)" using p by simp
  then have "replace ?old ?new (d # b) = d # replace ?old ?new b" by (simp add: replace_Cons)
  then have "tl (replace ?old ?new (d # b)) = replace ?old ?new b" by simp
  then show ?thesis using pass_active_left [OF X s, of Y b] by simp
qed

lemma pass_double:
  assumes X: "d \<notin> set X" and s: "\<not> suffix (d # X) a"
  shows "replace (d # X @ [d]) (d # Y @ [d]) (a @ d # X @ d # X @ d # b)
         = butlast (replace (d # X @ [d]) (d # Y @ [d]) (a @ [d])) @ d # Y @ d # X
           @ d # tl (replace (d # X @ [d]) (d # Y @ [d]) (d # b))"
proof -
  let ?old = "d # X @ [d]" and ?new = "d # Y @ [d]"
  have "replace ?old ?new (X @ d # b) = X @ replace ?old ?new (d # b)"
    by (rule replace_skip) (use X in simp_all)
  also have "\<dots> = X @ d # tl (replace ?old ?new (d # b))"
    using replace_keeps_hd [of d X Y b] by simp
  finally show ?thesis using pass_active_left [OF X s, of Y "X @ d # b"] by simp
qed

lemma pass_inert_two:
  assumes X: "d \<notin> set X" and M: "d \<notin> set M" "d \<notin> set M'" and ne: "M \<noteq> X" "M' \<noteq> X"
  shows "replace (d # X @ [d]) (d # Y @ [d]) (a @ d # M @ d # M' @ d # b)
         = butlast (replace (d # X @ [d]) (d # Y @ [d]) (a @ [d])) @ d # M @ d # M'
           @ d # tl (replace (d # X @ [d]) (d # Y @ [d]) (d # b))"
proof -
  let ?old = "d # X @ [d]" and ?new = "d # Y @ [d]"
  have "replace ?old ?new ([] @ d # M' @ d # b)
        = butlast (replace ?old ?new ([] @ [d])) @ d # M' @ d # tl (replace ?old ?new (d # b))"
    using X M(2) ne(2) by (rule pass_inert)
  then have "tl (replace ?old ?new (d # M' @ d # b)) = M' @ d # tl (replace ?old ?new (d # b))"
    by (simp add: replace_single)
  then show ?thesis using pass_inert [OF X M(1) ne(1), of Y a "M' @ d # b"] by simp
qed

lemma pass_keeps_suffix:
  assumes "d \<notin> set Z" and "d \<notin> set Y" and "Z \<noteq> Y" and "\<not> suffix (d # Z) a"
  shows "\<not> suffix (d # Z) (butlast (replace (d # X @ [d]) (d # Y @ [d]) (a @ [d])))"
proof
  let ?r = "replace (d # X @ [d]) (d # Y @ [d]) (a @ [d])"
  assume "suffix (d # Z) (butlast ?r)"
  then have "suffix ((d # Z) @ [d]) (butlast ?r @ [d])" by simp
  then have "suffix (d # Z @ [d]) ?r" using replace_keeps_last [of d X Y a] by simp
  then have "suffix (d # Z @ [d]) (a @ [d]) \<or> Z = Y"
    using assms(1,2) by (rule replace_suffix_field [rotated 2])
  then have "suffix ((d # Z) @ [d]) (a @ [d])" using assms(3) by simp
  then have "suffix (d # Z) a" unfolding suffix_def by (metis append.assoc butlast_snoc)
  then show False using assms(4) by simp
qed

lemma pass_keeps_prefix:
  assumes "d \<notin> set Z" and "d \<notin> set Y" and "Z \<noteq> Y" and "\<not> prefix (Z @ [d]) b"
  shows "\<not> prefix (Z @ [d]) (tl (replace (d # X @ [d]) (d # Y @ [d]) (d # b)))"
proof
  let ?r = "replace (d # X @ [d]) (d # Y @ [d]) (d # b)"
  assume "prefix (Z @ [d]) (tl ?r)"
  then have "prefix (d # Z @ [d]) (d # tl ?r)" by simp
  then have "prefix (d # Z @ [d]) ?r" using replace_keeps_hd [of d X Y b] by simp
  then have "prefix (d # Z @ [d]) (d # b) \<or> Z = Y"
    using assms(1,2) by (intro replace_prefix_field)
  then show False using assms(3,4) by simp
qed

subsection \<open>The four passes over the Boolean literals around one occurrence\<close>

lemma bools_single_t:
  assumes "\<not> suffix ''.t'' a" and "\<not> prefix ''t.'' b"
  shows "normalize_bools (a @ ''.t.'' @ b)
         = butlast (normalize_bools (a @ ''.'')) @ ''.true.'' @ tl (normalize_bools (''.'' @ b))"
    and "normalize_bools (a @ ''.'') = butlast (normalize_bools (a @ ''.'')) @ ''.''"
    and "normalize_bools (''.'' @ b) = ''.'' @ tl (normalize_bools (''.'' @ b))"
proof -
  note c0 = assms(1)
  note p0 = assms(2)
  define a1 where "a1 = butlast (replace ''.t.'' ''.true.'' (a @ ''.''))"
  define b1 where "b1 = tl (replace ''.t.'' ''.true.'' (''.'' @ b))"
  have e1: "replace ''.t.'' ''.true.'' (a @ ''.'') = a1 @ ''.''"
    unfolding a1_def using replace_keeps_last [where d = "CHR ''.''" and X = "''t''" and Y = "''true''" and a = a] by simp
  have h1: "replace ''.t.'' ''.true.'' (''.'' @ b) = ''.'' @ b1"
    unfolding b1_def using replace_keeps_hd [where d = "CHR ''.''" and X = "''t''" and Y = "''true''" and b = b] by simp
  have m1: "replace ''.t.'' ''.true.'' (a @ ''.t.'' @ b) = a1 @ ''.true.'' @ b1"
    unfolding a1_def b1_def using pass_active [where d = "CHR ''.''" and X = "''t''" and Y = "''true''" and a = a and b = b] c0 p0 by simp
  define a2 where "a2 = butlast (replace ''.TRUE.'' ''.true.'' (a1 @ ''.''))"
  define b2 where "b2 = tl (replace ''.TRUE.'' ''.true.'' (''.'' @ b1))"
  have e2: "replace ''.TRUE.'' ''.true.'' (a1 @ ''.'') = a2 @ ''.''"
    unfolding a2_def using replace_keeps_last [where d = "CHR ''.''" and X = "''TRUE''" and Y = "''true''" and a = a1] by simp
  have h2: "replace ''.TRUE.'' ''.true.'' (''.'' @ b1) = ''.'' @ b2"
    unfolding b2_def using replace_keeps_hd [where d = "CHR ''.''" and X = "''TRUE''" and Y = "''true''" and b = b1] by simp
  have m2: "replace ''.TRUE.'' ''.true.'' (a1 @ ''.true.'' @ b1) = a2 @ ''.true.'' @ b2"
    unfolding a2_def b2_def using pass_inert [where d = "CHR ''.''" and X = "''TRUE''" and Y = "''true''" and M = "''true''" and a = a1 and b = b1] by simp
  define a3 where "a3 = butlast (replace ''.f.'' ''.false.'' (a2 @ ''.''))"
  define b3 where "b3 = tl (replace ''.f.'' ''.false.'' (''.'' @ b2))"
  have e3: "replace ''.f.'' ''.false.'' (a2 @ ''.'') = a3 @ ''.''"
    unfolding a3_def using replace_keeps_last [where d = "CHR ''.''" and X = "''f''" and Y = "''false''" and a = a2] by simp
  have h3: "replace ''.f.'' ''.false.'' (''.'' @ b2) = ''.'' @ b3"
    unfolding b3_def using replace_keeps_hd [where d = "CHR ''.''" and X = "''f''" and Y = "''false''" and b = b2] by simp
  have m3: "replace ''.f.'' ''.false.'' (a2 @ ''.true.'' @ b2) = a3 @ ''.true.'' @ b3"
    unfolding a3_def b3_def using pass_inert [where d = "CHR ''.''" and X = "''f''" and Y = "''false''" and M = "''true''" and a = a2 and b = b2] by simp
  define a4 where "a4 = butlast (replace ''.FALSE.'' ''.false.'' (a3 @ ''.''))"
  define b4 where "b4 = tl (replace ''.FALSE.'' ''.false.'' (''.'' @ b3))"
  have e4: "replace ''.FALSE.'' ''.false.'' (a3 @ ''.'') = a4 @ ''.''"
    unfolding a4_def using replace_keeps_last [where d = "CHR ''.''" and X = "''FALSE''" and Y = "''false''" and a = a3] by simp
  have h4: "replace ''.FALSE.'' ''.false.'' (''.'' @ b3) = ''.'' @ b4"
    unfolding b4_def using replace_keeps_hd [where d = "CHR ''.''" and X = "''FALSE''" and Y = "''false''" and b = b3] by simp
  have m4: "replace ''.FALSE.'' ''.false.'' (a3 @ ''.true.'' @ b3) = a4 @ ''.true.'' @ b4"
    unfolding a4_def b4_def using pass_inert [where d = "CHR ''.''" and X = "''FALSE''" and Y = "''false''" and M = "''true''" and a = a3 and b = b3] by simp
  have A: "normalize_bools (a @ ''.'') = a4 @ ''.''"
    by (simp only: normalize_bools_def e1 e2 e3 e4)
  have B: "normalize_bools (''.'' @ b) = ''.'' @ b4"
    by (simp only: normalize_bools_def h1 h2 h3 h4)
  have C: "normalize_bools (a @ ''.t.'' @ b) = a4 @ ''.true.'' @ b4"
    by (simp only: normalize_bools_def m1 m2 m3 m4)
  show "normalize_bools (a @ ''.t.'' @ b)
         = butlast (normalize_bools (a @ ''.'')) @ ''.true.'' @ tl (normalize_bools (''.'' @ b))"
    unfolding A B C by simp
  show "normalize_bools (a @ ''.'') = butlast (normalize_bools (a @ ''.'')) @ ''.''"
    unfolding A by simp
  show "normalize_bools (''.'' @ b) = ''.'' @ tl (normalize_bools (''.'' @ b))"
    unfolding B by simp
qed

lemma bools_double_t:
  assumes "\<not> suffix ''.t'' a"
  shows "normalize_bools (a @ ''.t.t.'' @ b)
         = butlast (normalize_bools (a @ ''.'')) @ ''.true.t.'' @ tl (normalize_bools (''.'' @ b))"
    and "normalize_bools (a @ ''.'') = butlast (normalize_bools (a @ ''.'')) @ ''.''"
    and "normalize_bools (''.'' @ b) = ''.'' @ tl (normalize_bools (''.'' @ b))"
proof -
  note c0 = assms(1)
  define a1 where "a1 = butlast (replace ''.t.'' ''.true.'' (a @ ''.''))"
  define b1 where "b1 = tl (replace ''.t.'' ''.true.'' (''.'' @ b))"
  have e1: "replace ''.t.'' ''.true.'' (a @ ''.'') = a1 @ ''.''"
    unfolding a1_def using replace_keeps_last [where d = "CHR ''.''" and X = "''t''" and Y = "''true''" and a = a] by simp
  have h1: "replace ''.t.'' ''.true.'' (''.'' @ b) = ''.'' @ b1"
    unfolding b1_def using replace_keeps_hd [where d = "CHR ''.''" and X = "''t''" and Y = "''true''" and b = b] by simp
  have m1: "replace ''.t.'' ''.true.'' (a @ ''.t.t.'' @ b) = a1 @ ''.true.t.'' @ b1"
    unfolding a1_def b1_def using pass_double [where d = "CHR ''.''" and X = "''t''" and Y = "''true''" and a = a and b = b] c0 by simp
  define a2 where "a2 = butlast (replace ''.TRUE.'' ''.true.'' (a1 @ ''.''))"
  define b2 where "b2 = tl (replace ''.TRUE.'' ''.true.'' (''.'' @ b1))"
  have e2: "replace ''.TRUE.'' ''.true.'' (a1 @ ''.'') = a2 @ ''.''"
    unfolding a2_def using replace_keeps_last [where d = "CHR ''.''" and X = "''TRUE''" and Y = "''true''" and a = a1] by simp
  have h2: "replace ''.TRUE.'' ''.true.'' (''.'' @ b1) = ''.'' @ b2"
    unfolding b2_def using replace_keeps_hd [where d = "CHR ''.''" and X = "''TRUE''" and Y = "''true''" and b = b1] by simp
  have m2: "replace ''.TRUE.'' ''.true.'' (a1 @ ''.true.t.'' @ b1) = a2 @ ''.true.t.'' @ b2"
    unfolding a2_def b2_def using pass_inert_two [where d = "CHR ''.''" and X = "''TRUE''" and Y = "''true''" and M = "''true''" and M' = "''t''" and a = a1 and b = b1] by simp
  define a3 where "a3 = butlast (replace ''.f.'' ''.false.'' (a2 @ ''.''))"
  define b3 where "b3 = tl (replace ''.f.'' ''.false.'' (''.'' @ b2))"
  have e3: "replace ''.f.'' ''.false.'' (a2 @ ''.'') = a3 @ ''.''"
    unfolding a3_def using replace_keeps_last [where d = "CHR ''.''" and X = "''f''" and Y = "''false''" and a = a2] by simp
  have h3: "replace ''.f.'' ''.false.'' (''.'' @ b2) = ''.'' @ b3"
    unfolding b3_def using replace_keeps_hd [where d = "CHR ''.''" and X = "''f''" and Y = "''false''" and b = b2] by simp
  have m3: "replace ''.f.'' ''.false.'' (a2 @ ''.true.t.'' @ b2) = a3 @ ''.true.t.'' @ b3"
    unfolding a3_def b3_def using pass_inert_two [where d = "CHR ''.''" and X = "''f''" and Y = "''false''" and M = "''true''" and M' = "''t''" and a = a2 and b = b2] by simp
  define a4 where "a4 = butlast (replace ''.FALSE.'' ''.false.'' (a3 @ ''.''))"
  define b4 where "b4 = tl (replace ''.FALSE.'' ''.false.'' (''.'' @ b3))"
  have e4: "replace ''.FALSE.'' ''.false.'' (a3 @ ''.'') = a4 @ ''.''"
    unfolding a4_def using replace_keeps_last [where d = "CHR ''.''" and X = "''FALSE''" and Y = "''false''" and a = a3] by simp
  have h4: "replace ''.FALSE.'' ''.false.'' (''.'' @ b3) = ''.'' @ b4"
    unfolding b4_def using replace_keeps_hd [where d = "CHR ''.''" and X = "''FALSE''" and Y = "''false''" and b = b3] by simp
  have m4: "replace ''.FALSE.'' ''.false.'' (a3 @ ''.true.t.'' @ b3) = a4 @ ''.true.t.'' @ b4"
    unfolding a4_def b4_def using pass_inert_two [where d = "CHR ''.''" and X = "''FALSE''" and Y = "''false''" and M = "''true''" and M' = "''t''" and a = a3 and b = b3] by simp
  have A: "normalize_bools (a @ ''.'') = a4 @ ''.''"
    by (simp only: normalize_bools_def e1 e2 e3 e4)
  have B: "normalize_bools (''.'' @ b) = ''.'' @ b4"
    by (simp only: normalize_bools_def h1 h2 h3 h4)
  have C: "normalize_bools (a @ ''.t.t.'' @ b) = a4 @ ''.true.t.'' @ b4"
    by (simp only: normalize_bools_def m1 m2 m3 m4)
  show "normalize_bools (a @ ''.t.t.'' @ b)
         = butlast (normalize_bools (a @ ''.'')) @ ''.true.t.'' @ tl (normalize_bools (''.'' @ b))"
    unfolding A B C by simp
  show "normalize_bools (a @ ''.'') = butlast (normalize_bools (a @ ''.'')) @ ''.''"
    unfolding A by simp
  show "normalize_bools (''.'' @ b) = ''.'' @ tl (normalize_bools (''.'' @ b))"
    unfolding B by simp
qed

lemma bools_single_TRUE:
  assumes "\<not> suffix ''.TRUE'' a" and "\<not> prefix ''TRUE.'' b"
  shows "normalize_bools (a @ ''.TRUE.'' @ b)
         = butlast (normalize_bools (a @ ''.'')) @ ''.true.'' @ tl (normalize_bools (''.'' @ b))"
    and "normalize_bools (a @ ''.'') = butlast (normalize_bools (a @ ''.'')) @ ''.''"
    and "normalize_bools (''.'' @ b) = ''.'' @ tl (normalize_bools (''.'' @ b))"
proof -
  note c0 = assms(1)
  note p0 = assms(2)
  define a1 where "a1 = butlast (replace ''.t.'' ''.true.'' (a @ ''.''))"
  define b1 where "b1 = tl (replace ''.t.'' ''.true.'' (''.'' @ b))"
  have e1: "replace ''.t.'' ''.true.'' (a @ ''.'') = a1 @ ''.''"
    unfolding a1_def using replace_keeps_last [where d = "CHR ''.''" and X = "''t''" and Y = "''true''" and a = a] by simp
  have h1: "replace ''.t.'' ''.true.'' (''.'' @ b) = ''.'' @ b1"
    unfolding b1_def using replace_keeps_hd [where d = "CHR ''.''" and X = "''t''" and Y = "''true''" and b = b] by simp
  have m1: "replace ''.t.'' ''.true.'' (a @ ''.TRUE.'' @ b) = a1 @ ''.TRUE.'' @ b1"
    unfolding a1_def b1_def using pass_inert [where d = "CHR ''.''" and X = "''t''" and Y = "''true''" and M = "''TRUE''" and a = a and b = b] by simp
  have c1: "\<not> suffix ''.TRUE'' a1"
    unfolding a1_def using pass_keeps_suffix [where d = "CHR ''.''" and Z = "''TRUE''" and Y = "''true''" and X = "''t''" and a = a] c0 by simp
  have p1: "\<not> prefix ''TRUE.'' b1"
    unfolding b1_def using pass_keeps_prefix [where d = "CHR ''.''" and Z = "''TRUE''" and Y = "''true''" and X = "''t''" and b = b] p0 by simp
  define a2 where "a2 = butlast (replace ''.TRUE.'' ''.true.'' (a1 @ ''.''))"
  define b2 where "b2 = tl (replace ''.TRUE.'' ''.true.'' (''.'' @ b1))"
  have e2: "replace ''.TRUE.'' ''.true.'' (a1 @ ''.'') = a2 @ ''.''"
    unfolding a2_def using replace_keeps_last [where d = "CHR ''.''" and X = "''TRUE''" and Y = "''true''" and a = a1] by simp
  have h2: "replace ''.TRUE.'' ''.true.'' (''.'' @ b1) = ''.'' @ b2"
    unfolding b2_def using replace_keeps_hd [where d = "CHR ''.''" and X = "''TRUE''" and Y = "''true''" and b = b1] by simp
  have m2: "replace ''.TRUE.'' ''.true.'' (a1 @ ''.TRUE.'' @ b1) = a2 @ ''.true.'' @ b2"
    unfolding a2_def b2_def using pass_active [where d = "CHR ''.''" and X = "''TRUE''" and Y = "''true''" and a = a1 and b = b1] c1 p1 by simp
  define a3 where "a3 = butlast (replace ''.f.'' ''.false.'' (a2 @ ''.''))"
  define b3 where "b3 = tl (replace ''.f.'' ''.false.'' (''.'' @ b2))"
  have e3: "replace ''.f.'' ''.false.'' (a2 @ ''.'') = a3 @ ''.''"
    unfolding a3_def using replace_keeps_last [where d = "CHR ''.''" and X = "''f''" and Y = "''false''" and a = a2] by simp
  have h3: "replace ''.f.'' ''.false.'' (''.'' @ b2) = ''.'' @ b3"
    unfolding b3_def using replace_keeps_hd [where d = "CHR ''.''" and X = "''f''" and Y = "''false''" and b = b2] by simp
  have m3: "replace ''.f.'' ''.false.'' (a2 @ ''.true.'' @ b2) = a3 @ ''.true.'' @ b3"
    unfolding a3_def b3_def using pass_inert [where d = "CHR ''.''" and X = "''f''" and Y = "''false''" and M = "''true''" and a = a2 and b = b2] by simp
  define a4 where "a4 = butlast (replace ''.FALSE.'' ''.false.'' (a3 @ ''.''))"
  define b4 where "b4 = tl (replace ''.FALSE.'' ''.false.'' (''.'' @ b3))"
  have e4: "replace ''.FALSE.'' ''.false.'' (a3 @ ''.'') = a4 @ ''.''"
    unfolding a4_def using replace_keeps_last [where d = "CHR ''.''" and X = "''FALSE''" and Y = "''false''" and a = a3] by simp
  have h4: "replace ''.FALSE.'' ''.false.'' (''.'' @ b3) = ''.'' @ b4"
    unfolding b4_def using replace_keeps_hd [where d = "CHR ''.''" and X = "''FALSE''" and Y = "''false''" and b = b3] by simp
  have m4: "replace ''.FALSE.'' ''.false.'' (a3 @ ''.true.'' @ b3) = a4 @ ''.true.'' @ b4"
    unfolding a4_def b4_def using pass_inert [where d = "CHR ''.''" and X = "''FALSE''" and Y = "''false''" and M = "''true''" and a = a3 and b = b3] by simp
  have A: "normalize_bools (a @ ''.'') = a4 @ ''.''"
    by (simp only: normalize_bools_def e1 e2 e3 e4)
  have B: "normalize_bools (''.'' @ b) = ''.'' @ b4"
    by (simp only: normalize_bools_def h1 h2 h3 h4)
  have C: "normalize_bools (a @ ''.TRUE.'' @ b) = a4 @ ''.true.'' @ b4"
    by (simp only: normalize_bools_def m1 m2 m3 m4)
  show "normalize_bools (a @ ''.TRUE.'' @ b)
         = butlast (normalize_bools (a @ ''.'')) @ ''.true.'' @ tl (normalize_bools (''.'' @ b))"
    unfolding A B C by simp
  show "normalize_bools (a @ ''.'') = butlast (normalize_bools (a @ ''.'')) @ ''.''"
    unfolding A by simp
  show "normalize_bools (''.'' @ b) = ''.'' @ tl (normalize_bools (''.'' @ b))"
    unfolding B by simp
qed

lemma bools_double_TRUE:
  assumes "\<not> suffix ''.TRUE'' a"
  shows "normalize_bools (a @ ''.TRUE.TRUE.'' @ b)
         = butlast (normalize_bools (a @ ''.'')) @ ''.true.TRUE.'' @ tl (normalize_bools (''.'' @ b))"
    and "normalize_bools (a @ ''.'') = butlast (normalize_bools (a @ ''.'')) @ ''.''"
    and "normalize_bools (''.'' @ b) = ''.'' @ tl (normalize_bools (''.'' @ b))"
proof -
  note c0 = assms(1)
  define a1 where "a1 = butlast (replace ''.t.'' ''.true.'' (a @ ''.''))"
  define b1 where "b1 = tl (replace ''.t.'' ''.true.'' (''.'' @ b))"
  have e1: "replace ''.t.'' ''.true.'' (a @ ''.'') = a1 @ ''.''"
    unfolding a1_def using replace_keeps_last [where d = "CHR ''.''" and X = "''t''" and Y = "''true''" and a = a] by simp
  have h1: "replace ''.t.'' ''.true.'' (''.'' @ b) = ''.'' @ b1"
    unfolding b1_def using replace_keeps_hd [where d = "CHR ''.''" and X = "''t''" and Y = "''true''" and b = b] by simp
  have m1: "replace ''.t.'' ''.true.'' (a @ ''.TRUE.TRUE.'' @ b) = a1 @ ''.TRUE.TRUE.'' @ b1"
    unfolding a1_def b1_def using pass_inert_two [where d = "CHR ''.''" and X = "''t''" and Y = "''true''" and M = "''TRUE''" and M' = "''TRUE''" and a = a and b = b] by simp
  have c1: "\<not> suffix ''.TRUE'' a1"
    unfolding a1_def using pass_keeps_suffix [where d = "CHR ''.''" and Z = "''TRUE''" and Y = "''true''" and X = "''t''" and a = a] c0 by simp
  define a2 where "a2 = butlast (replace ''.TRUE.'' ''.true.'' (a1 @ ''.''))"
  define b2 where "b2 = tl (replace ''.TRUE.'' ''.true.'' (''.'' @ b1))"
  have e2: "replace ''.TRUE.'' ''.true.'' (a1 @ ''.'') = a2 @ ''.''"
    unfolding a2_def using replace_keeps_last [where d = "CHR ''.''" and X = "''TRUE''" and Y = "''true''" and a = a1] by simp
  have h2: "replace ''.TRUE.'' ''.true.'' (''.'' @ b1) = ''.'' @ b2"
    unfolding b2_def using replace_keeps_hd [where d = "CHR ''.''" and X = "''TRUE''" and Y = "''true''" and b = b1] by simp
  have m2: "replace ''.TRUE.'' ''.true.'' (a1 @ ''.TRUE.TRUE.'' @ b1) = a2 @ ''.true.TRUE.'' @ b2"
    unfolding a2_def b2_def using pass_double [where d = "CHR ''.''" and X = "''TRUE''" and Y = "''true''" and a = a1 and b = b1] c1 by simp
  define a3 where "a3 = butlast (replace ''.f.'' ''.false.'' (a2 @ ''.''))"
  define b3 where "b3 = tl (replace ''.f.'' ''.false.'' (''.'' @ b2))"
  have e3: "replace ''.f.'' ''.false.'' (a2 @ ''.'') = a3 @ ''.''"
    unfolding a3_def using replace_keeps_last [where d = "CHR ''.''" and X = "''f''" and Y = "''false''" and a = a2] by simp
  have h3: "replace ''.f.'' ''.false.'' (''.'' @ b2) = ''.'' @ b3"
    unfolding b3_def using replace_keeps_hd [where d = "CHR ''.''" and X = "''f''" and Y = "''false''" and b = b2] by simp
  have m3: "replace ''.f.'' ''.false.'' (a2 @ ''.true.TRUE.'' @ b2) = a3 @ ''.true.TRUE.'' @ b3"
    unfolding a3_def b3_def using pass_inert_two [where d = "CHR ''.''" and X = "''f''" and Y = "''false''" and M = "''true''" and M' = "''TRUE''" and a = a2 and b = b2] by simp
  define a4 where "a4 = butlast (replace ''.FALSE.'' ''.false.'' (a3 @ ''.''))"
  define b4 where "b4 = tl (replace ''.FALSE.'' ''.false.'' (''.'' @ b3))"
  have e4: "replace ''.FALSE.'' ''.false.'' (a3 @ ''.'') = a4 @ ''.''"
    unfolding a4_def using replace_keeps_last [where d = "CHR ''.''" and X = "''FALSE''" and Y = "''false''" and a = a3] by simp
  have h4: "replace ''.FALSE.'' ''.false.'' (''.'' @ b3) = ''.'' @ b4"
    unfolding b4_def using replace_keeps_hd [where d = "CHR ''.''" and X = "''FALSE''" and Y = "''false''" and b = b3] by simp
  have m4: "replace ''.FALSE.'' ''.false.'' (a3 @ ''.true.TRUE.'' @ b3) = a4 @ ''.true.TRUE.'' @ b4"
    unfolding a4_def b4_def using pass_inert_two [where d = "CHR ''.''" and X = "''FALSE''" and Y = "''false''" and M = "''true''" and M' = "''TRUE''" and a = a3 and b = b3] by simp
  have A: "normalize_bools (a @ ''.'') = a4 @ ''.''"
    by (simp only: normalize_bools_def e1 e2 e3 e4)
  have B: "normalize_bools (''.'' @ b) = ''.'' @ b4"
    by (simp only: normalize_bools_def h1 h2 h3 h4)
  have C: "normalize_bools (a @ ''.TRUE.TRUE.'' @ b) = a4 @ ''.true.TRUE.'' @ b4"
    by (simp only: normalize_bools_def m1 m2 m3 m4)
  show "normalize_bools (a @ ''.TRUE.TRUE.'' @ b)
         = butlast (normalize_bools (a @ ''.'')) @ ''.true.TRUE.'' @ tl (normalize_bools (''.'' @ b))"
    unfolding A B C by simp
  show "normalize_bools (a @ ''.'') = butlast (normalize_bools (a @ ''.'')) @ ''.''"
    unfolding A by simp
  show "normalize_bools (''.'' @ b) = ''.'' @ tl (normalize_bools (''.'' @ b))"
    unfolding B by simp
qed

lemma bools_single_f:
  assumes "\<not> suffix ''.f'' a" and "\<not> prefix ''f.'' b"
  shows "normalize_bools (a @ ''.f.'' @ b)
         = butlast (normalize_bools (a @ ''.'')) @ ''.false.'' @ tl (normalize_bools (''.'' @ b))"
    and "normalize_bools (a @ ''.'') = butlast (normalize_bools (a @ ''.'')) @ ''.''"
    and "normalize_bools (''.'' @ b) = ''.'' @ tl (normalize_bools (''.'' @ b))"
proof -
  note c0 = assms(1)
  note p0 = assms(2)
  define a1 where "a1 = butlast (replace ''.t.'' ''.true.'' (a @ ''.''))"
  define b1 where "b1 = tl (replace ''.t.'' ''.true.'' (''.'' @ b))"
  have e1: "replace ''.t.'' ''.true.'' (a @ ''.'') = a1 @ ''.''"
    unfolding a1_def using replace_keeps_last [where d = "CHR ''.''" and X = "''t''" and Y = "''true''" and a = a] by simp
  have h1: "replace ''.t.'' ''.true.'' (''.'' @ b) = ''.'' @ b1"
    unfolding b1_def using replace_keeps_hd [where d = "CHR ''.''" and X = "''t''" and Y = "''true''" and b = b] by simp
  have m1: "replace ''.t.'' ''.true.'' (a @ ''.f.'' @ b) = a1 @ ''.f.'' @ b1"
    unfolding a1_def b1_def using pass_inert [where d = "CHR ''.''" and X = "''t''" and Y = "''true''" and M = "''f''" and a = a and b = b] by simp
  have c1: "\<not> suffix ''.f'' a1"
    unfolding a1_def using pass_keeps_suffix [where d = "CHR ''.''" and Z = "''f''" and Y = "''true''" and X = "''t''" and a = a] c0 by simp
  have p1: "\<not> prefix ''f.'' b1"
    unfolding b1_def using pass_keeps_prefix [where d = "CHR ''.''" and Z = "''f''" and Y = "''true''" and X = "''t''" and b = b] p0 by simp
  define a2 where "a2 = butlast (replace ''.TRUE.'' ''.true.'' (a1 @ ''.''))"
  define b2 where "b2 = tl (replace ''.TRUE.'' ''.true.'' (''.'' @ b1))"
  have e2: "replace ''.TRUE.'' ''.true.'' (a1 @ ''.'') = a2 @ ''.''"
    unfolding a2_def using replace_keeps_last [where d = "CHR ''.''" and X = "''TRUE''" and Y = "''true''" and a = a1] by simp
  have h2: "replace ''.TRUE.'' ''.true.'' (''.'' @ b1) = ''.'' @ b2"
    unfolding b2_def using replace_keeps_hd [where d = "CHR ''.''" and X = "''TRUE''" and Y = "''true''" and b = b1] by simp
  have m2: "replace ''.TRUE.'' ''.true.'' (a1 @ ''.f.'' @ b1) = a2 @ ''.f.'' @ b2"
    unfolding a2_def b2_def using pass_inert [where d = "CHR ''.''" and X = "''TRUE''" and Y = "''true''" and M = "''f''" and a = a1 and b = b1] by simp
  have c2: "\<not> suffix ''.f'' a2"
    unfolding a2_def using pass_keeps_suffix [where d = "CHR ''.''" and Z = "''f''" and Y = "''true''" and X = "''TRUE''" and a = a1] c1 by simp
  have p2: "\<not> prefix ''f.'' b2"
    unfolding b2_def using pass_keeps_prefix [where d = "CHR ''.''" and Z = "''f''" and Y = "''true''" and X = "''TRUE''" and b = b1] p1 by simp
  define a3 where "a3 = butlast (replace ''.f.'' ''.false.'' (a2 @ ''.''))"
  define b3 where "b3 = tl (replace ''.f.'' ''.false.'' (''.'' @ b2))"
  have e3: "replace ''.f.'' ''.false.'' (a2 @ ''.'') = a3 @ ''.''"
    unfolding a3_def using replace_keeps_last [where d = "CHR ''.''" and X = "''f''" and Y = "''false''" and a = a2] by simp
  have h3: "replace ''.f.'' ''.false.'' (''.'' @ b2) = ''.'' @ b3"
    unfolding b3_def using replace_keeps_hd [where d = "CHR ''.''" and X = "''f''" and Y = "''false''" and b = b2] by simp
  have m3: "replace ''.f.'' ''.false.'' (a2 @ ''.f.'' @ b2) = a3 @ ''.false.'' @ b3"
    unfolding a3_def b3_def using pass_active [where d = "CHR ''.''" and X = "''f''" and Y = "''false''" and a = a2 and b = b2] c2 p2 by simp
  define a4 where "a4 = butlast (replace ''.FALSE.'' ''.false.'' (a3 @ ''.''))"
  define b4 where "b4 = tl (replace ''.FALSE.'' ''.false.'' (''.'' @ b3))"
  have e4: "replace ''.FALSE.'' ''.false.'' (a3 @ ''.'') = a4 @ ''.''"
    unfolding a4_def using replace_keeps_last [where d = "CHR ''.''" and X = "''FALSE''" and Y = "''false''" and a = a3] by simp
  have h4: "replace ''.FALSE.'' ''.false.'' (''.'' @ b3) = ''.'' @ b4"
    unfolding b4_def using replace_keeps_hd [where d = "CHR ''.''" and X = "''FALSE''" and Y = "''false''" and b = b3] by simp
  have m4: "replace ''.FALSE.'' ''.false.'' (a3 @ ''.false.'' @ b3) = a4 @ ''.false.'' @ b4"
    unfolding a4_def b4_def using pass_inert [where d = "CHR ''.''" and X = "''FALSE''" and Y = "''false''" and M = "''false''" and a = a3 and b = b3] by simp
  have A: "normalize_bools (a @ ''.'') = a4 @ ''.''"
    by (simp only: normalize_bools_def e1 e2 e3 e4)
  have B: "normalize_bools (''.'' @ b) = ''.'' @ b4"
    by (simp only: normalize_bools_def h1 h2 h3 h4)
  have C: "normalize_bools (a @ ''.f.'' @ b) = a4 @ ''.false.'' @ b4"
    by (simp only: normalize_bools_def m1 m2 m3 m4)
  show "normalize_bools (a @ ''.f.'' @ b)
         = butlast (normalize_bools (a @ ''.'')) @ ''.false.'' @ tl (normalize_bools (''.'' @ b))"
    unfolding A B C by simp
  show "normalize_bools (a @ ''.'') = butlast (normalize_bools (a @ ''.'')) @ ''.''"
    unfolding A by simp
  show "normalize_bools (''.'' @ b) = ''.'' @ tl (normalize_bools (''.'' @ b))"
    unfolding B by simp
qed

lemma bools_double_f:
  assumes "\<not> suffix ''.f'' a"
  shows "normalize_bools (a @ ''.f.f.'' @ b)
         = butlast (normalize_bools (a @ ''.'')) @ ''.false.f.'' @ tl (normalize_bools (''.'' @ b))"
    and "normalize_bools (a @ ''.'') = butlast (normalize_bools (a @ ''.'')) @ ''.''"
    and "normalize_bools (''.'' @ b) = ''.'' @ tl (normalize_bools (''.'' @ b))"
proof -
  note c0 = assms(1)
  define a1 where "a1 = butlast (replace ''.t.'' ''.true.'' (a @ ''.''))"
  define b1 where "b1 = tl (replace ''.t.'' ''.true.'' (''.'' @ b))"
  have e1: "replace ''.t.'' ''.true.'' (a @ ''.'') = a1 @ ''.''"
    unfolding a1_def using replace_keeps_last [where d = "CHR ''.''" and X = "''t''" and Y = "''true''" and a = a] by simp
  have h1: "replace ''.t.'' ''.true.'' (''.'' @ b) = ''.'' @ b1"
    unfolding b1_def using replace_keeps_hd [where d = "CHR ''.''" and X = "''t''" and Y = "''true''" and b = b] by simp
  have m1: "replace ''.t.'' ''.true.'' (a @ ''.f.f.'' @ b) = a1 @ ''.f.f.'' @ b1"
    unfolding a1_def b1_def using pass_inert_two [where d = "CHR ''.''" and X = "''t''" and Y = "''true''" and M = "''f''" and M' = "''f''" and a = a and b = b] by simp
  have c1: "\<not> suffix ''.f'' a1"
    unfolding a1_def using pass_keeps_suffix [where d = "CHR ''.''" and Z = "''f''" and Y = "''true''" and X = "''t''" and a = a] c0 by simp
  define a2 where "a2 = butlast (replace ''.TRUE.'' ''.true.'' (a1 @ ''.''))"
  define b2 where "b2 = tl (replace ''.TRUE.'' ''.true.'' (''.'' @ b1))"
  have e2: "replace ''.TRUE.'' ''.true.'' (a1 @ ''.'') = a2 @ ''.''"
    unfolding a2_def using replace_keeps_last [where d = "CHR ''.''" and X = "''TRUE''" and Y = "''true''" and a = a1] by simp
  have h2: "replace ''.TRUE.'' ''.true.'' (''.'' @ b1) = ''.'' @ b2"
    unfolding b2_def using replace_keeps_hd [where d = "CHR ''.''" and X = "''TRUE''" and Y = "''true''" and b = b1] by simp
  have m2: "replace ''.TRUE.'' ''.true.'' (a1 @ ''.f.f.'' @ b1) = a2 @ ''.f.f.'' @ b2"
    unfolding a2_def b2_def using pass_inert_two [where d = "CHR ''.''" and X = "''TRUE''" and Y = "''true''" and M = "''f''" and M' = "''f''" and a = a1 and b = b1] by simp
  have c2: "\<not> suffix ''.f'' a2"
    unfolding a2_def using pass_keeps_suffix [where d = "CHR ''.''" and Z = "''f''" and Y = "''true''" and X = "''TRUE''" and a = a1] c1 by simp
  define a3 where "a3 = butlast (replace ''.f.'' ''.false.'' (a2 @ ''.''))"
  define b3 where "b3 = tl (replace ''.f.'' ''.false.'' (''.'' @ b2))"
  have e3: "replace ''.f.'' ''.false.'' (a2 @ ''.'') = a3 @ ''.''"
    unfolding a3_def using replace_keeps_last [where d = "CHR ''.''" and X = "''f''" and Y = "''false''" and a = a2] by simp
  have h3: "replace ''.f.'' ''.false.'' (''.'' @ b2) = ''.'' @ b3"
    unfolding b3_def using replace_keeps_hd [where d = "CHR ''.''" and X = "''f''" and Y = "''false''" and b = b2] by simp
  have m3: "replace ''.f.'' ''.false.'' (a2 @ ''.f.f.'' @ b2) = a3 @ ''.false.f.'' @ b3"
    unfolding a3_def b3_def using pass_double [where d = "CHR ''.''" and X = "''f''" and Y = "''false''" and a = a2 and b = b2] c2 by simp
  define a4 where "a4 = butlast (replace ''.FALSE.'' ''.false.'' (a3 @ ''.''))"
  define b4 where "b4 = tl (replace ''.FALSE.'' ''.false.'' (''.'' @ b3))"
  have e4: "replace ''.FALSE.'' ''.false.'' (a3 @ ''.'') = a4 @ ''.''"
    unfolding a4_def using replace_keeps_last [where d = "CHR ''.''" and X = "''FALSE''" and Y = "''false''" and a = a3] by simp
  have h4: "replace ''.FALSE.'' ''.false.'' (''.'' @ b3) = ''.'' @ b4"
    unfolding b4_def using replace_keeps_hd [where d = "CHR ''.''" and X = "''FALSE''" and Y = "''false''" and b = b3] by simp
  have m4: "replace ''.FALSE.'' ''.false.'' (a3 @ ''.false.f.'' @ b3) = a4 @ ''.false.f.'' @ b4"
    unfolding a4_def b4_def using pass_inert_two [where d = "CHR ''.''" and X = "''FALSE''" and Y = "''false''" and M = "''false''" and M' = "''f''" and a = a3 and b = b3] by simp
  have A: "normalize_bools (a @ ''.'') = a4 @ ''.''"
    by (simp only: normalize_bools_def e1 e2 e3 e4)
  have B: "normalize_bools (''.'' @ b) = ''.'' @ b4"
    by (simp only: normalize_bools_def h1 h2 h3 h4)
  have C: "normalize_bools (a @ ''.f.f.'' @ b) = a4 @ ''.false.f.'' @ b4"
    by (simp only: normalize_bools_def m1 m2 m3 m4)
  show "normalize_bools (a @ ''.f.f.'' @ b)
         = butlast (normalize_bools (a @ ''.'')) @ ''.false.f.'' @ tl (normalize_bools (''.'' @ b))"
    unfolding A B C by simp
  show "normalize_bools (a @ ''.'') = butlast (normalize_bools (a @ ''.'')) @ ''.''"
    unfolding A by simp
  show "normalize_bools (''.'' @ b) = ''.'' @ tl (normalize_bools (''.'' @ b))"
    unfolding B by simp
qed

lemma bools_single_FALSE:
  assumes "\<not> suffix ''.FALSE'' a" and "\<not> prefix ''FALSE.'' b"
  shows "normalize_bools (a @ ''.FALSE.'' @ b)
         = butlast (normalize_bools (a @ ''.'')) @ ''.false.'' @ tl (normalize_bools (''.'' @ b))"
    and "normalize_bools (a @ ''.'') = butlast (normalize_bools (a @ ''.'')) @ ''.''"
    and "normalize_bools (''.'' @ b) = ''.'' @ tl (normalize_bools (''.'' @ b))"
proof -
  note c0 = assms(1)
  note p0 = assms(2)
  define a1 where "a1 = butlast (replace ''.t.'' ''.true.'' (a @ ''.''))"
  define b1 where "b1 = tl (replace ''.t.'' ''.true.'' (''.'' @ b))"
  have e1: "replace ''.t.'' ''.true.'' (a @ ''.'') = a1 @ ''.''"
    unfolding a1_def using replace_keeps_last [where d = "CHR ''.''" and X = "''t''" and Y = "''true''" and a = a] by simp
  have h1: "replace ''.t.'' ''.true.'' (''.'' @ b) = ''.'' @ b1"
    unfolding b1_def using replace_keeps_hd [where d = "CHR ''.''" and X = "''t''" and Y = "''true''" and b = b] by simp
  have m1: "replace ''.t.'' ''.true.'' (a @ ''.FALSE.'' @ b) = a1 @ ''.FALSE.'' @ b1"
    unfolding a1_def b1_def using pass_inert [where d = "CHR ''.''" and X = "''t''" and Y = "''true''" and M = "''FALSE''" and a = a and b = b] by simp
  have c1: "\<not> suffix ''.FALSE'' a1"
    unfolding a1_def using pass_keeps_suffix [where d = "CHR ''.''" and Z = "''FALSE''" and Y = "''true''" and X = "''t''" and a = a] c0 by simp
  have p1: "\<not> prefix ''FALSE.'' b1"
    unfolding b1_def using pass_keeps_prefix [where d = "CHR ''.''" and Z = "''FALSE''" and Y = "''true''" and X = "''t''" and b = b] p0 by simp
  define a2 where "a2 = butlast (replace ''.TRUE.'' ''.true.'' (a1 @ ''.''))"
  define b2 where "b2 = tl (replace ''.TRUE.'' ''.true.'' (''.'' @ b1))"
  have e2: "replace ''.TRUE.'' ''.true.'' (a1 @ ''.'') = a2 @ ''.''"
    unfolding a2_def using replace_keeps_last [where d = "CHR ''.''" and X = "''TRUE''" and Y = "''true''" and a = a1] by simp
  have h2: "replace ''.TRUE.'' ''.true.'' (''.'' @ b1) = ''.'' @ b2"
    unfolding b2_def using replace_keeps_hd [where d = "CHR ''.''" and X = "''TRUE''" and Y = "''true''" and b = b1] by simp
  have m2: "replace ''.TRUE.'' ''.true.'' (a1 @ ''.FALSE.'' @ b1) = a2 @ ''.FALSE.'' @ b2"
    unfolding a2_def b2_def using pass_inert [where d = "CHR ''.''" and X = "''TRUE''" and Y = "''true''" and M = "''FALSE''" and a = a1 and b = b1] by simp
  have c2: "\<not> suffix ''.FALSE'' a2"
    unfolding a2_def using pass_keeps_suffix [where d = "CHR ''.''" and Z = "''FALSE''" and Y = "''true''" and X = "''TRUE''" and a = a1] c1 by simp
  have p2: "\<not> prefix ''FALSE.'' b2"
    unfolding b2_def using pass_keeps_prefix [where d = "CHR ''.''" and Z = "''FALSE''" and Y = "''true''" and X = "''TRUE''" and b = b1] p1 by simp
  define a3 where "a3 = butlast (replace ''.f.'' ''.false.'' (a2 @ ''.''))"
  define b3 where "b3 = tl (replace ''.f.'' ''.false.'' (''.'' @ b2))"
  have e3: "replace ''.f.'' ''.false.'' (a2 @ ''.'') = a3 @ ''.''"
    unfolding a3_def using replace_keeps_last [where d = "CHR ''.''" and X = "''f''" and Y = "''false''" and a = a2] by simp
  have h3: "replace ''.f.'' ''.false.'' (''.'' @ b2) = ''.'' @ b3"
    unfolding b3_def using replace_keeps_hd [where d = "CHR ''.''" and X = "''f''" and Y = "''false''" and b = b2] by simp
  have m3: "replace ''.f.'' ''.false.'' (a2 @ ''.FALSE.'' @ b2) = a3 @ ''.FALSE.'' @ b3"
    unfolding a3_def b3_def using pass_inert [where d = "CHR ''.''" and X = "''f''" and Y = "''false''" and M = "''FALSE''" and a = a2 and b = b2] by simp
  have c3: "\<not> suffix ''.FALSE'' a3"
    unfolding a3_def using pass_keeps_suffix [where d = "CHR ''.''" and Z = "''FALSE''" and Y = "''false''" and X = "''f''" and a = a2] c2 by simp
  have p3: "\<not> prefix ''FALSE.'' b3"
    unfolding b3_def using pass_keeps_prefix [where d = "CHR ''.''" and Z = "''FALSE''" and Y = "''false''" and X = "''f''" and b = b2] p2 by simp
  define a4 where "a4 = butlast (replace ''.FALSE.'' ''.false.'' (a3 @ ''.''))"
  define b4 where "b4 = tl (replace ''.FALSE.'' ''.false.'' (''.'' @ b3))"
  have e4: "replace ''.FALSE.'' ''.false.'' (a3 @ ''.'') = a4 @ ''.''"
    unfolding a4_def using replace_keeps_last [where d = "CHR ''.''" and X = "''FALSE''" and Y = "''false''" and a = a3] by simp
  have h4: "replace ''.FALSE.'' ''.false.'' (''.'' @ b3) = ''.'' @ b4"
    unfolding b4_def using replace_keeps_hd [where d = "CHR ''.''" and X = "''FALSE''" and Y = "''false''" and b = b3] by simp
  have m4: "replace ''.FALSE.'' ''.false.'' (a3 @ ''.FALSE.'' @ b3) = a4 @ ''.false.'' @ b4"
    unfolding a4_def b4_def using pass_active [where d = "CHR ''.''" and X = "''FALSE''" and Y = "''false''" and a = a3 and b = b3] c3 p3 by simp
  have A: "normalize_bools (a @ ''.'') = a4 @ ''.''"
    by (simp only: normalize_bools_def e1 e2 e3 e4)
  have B: "normalize_bools (''.'' @ b) = ''.'' @ b4"
    by (simp only: normalize_bools_def h1 h2 h3 h4)
  have C: "normalize_bools (a @ ''.FALSE.'' @ b) = a4 @ ''.false.'' @ b4"
    by (simp only: normalize_bools_def m1 m2 m3 m4)
  show "normalize_bools (a @ ''.FALSE.'' @ b)
         = butlast (normalize_bools (a @ ''.'')) @ ''.false.'' @ tl (normalize_bools (''.'' @ b))"
    unfolding A B C by simp
  show "normalize_bools (a @ ''.'') = butlast (normalize_bools (a @ ''.'')) @ ''.''"
    unfolding A by simp
  show "normalize_bools (''.'' @ b) = ''.'' @ tl (normalize_bools (''.'' @ b))"
    unfolding B by simp
qed

lemma bools_double_FALSE:
  assumes "\<not> suffix ''.FALSE'' a"
  shows "normalize_bools (a @ ''.FALSE.FALSE.'' @ b)
         = butlast (normalize_bools (a @ ''.'')) @ ''.false.FALSE.'' @ tl (normalize_bools (''.'' @ b))"
    and "normalize_bools (a @ ''.'') = butlast (normalize_bools (a @ ''.'')) @ ''.''"
    and "normalize_bools (''.'' @ b) = ''.'' @ tl (normalize_bools (''.'' @ b))"
proof -
  note c0 = assms(1)
  define a1 where "a1 = butlast (replace ''.t.'' ''.true.'' (a @ ''.''))"
  define b1 where "b1 = tl (replace ''.t.'' ''.true.'' (''.'' @ b))"
  have e1: "replace ''.t.'' ''.true.'' (a @ ''.'') = a1 @ ''.''"
    unfolding a1_def using replace_keeps_last [where d = "CHR ''.''" and X = "''t''" and Y = "''true''" and a = a] by simp
  have h1: "replace ''.t.'' ''.true.'' (''.'' @ b) = ''.'' @ b1"
    unfolding b1_def using replace_keeps_hd [where d = "CHR ''.''" and X = "''t''" and Y = "''true''" and b = b] by simp
  have m1: "replace ''.t.'' ''.true.'' (a @ ''.FALSE.FALSE.'' @ b) = a1 @ ''.FALSE.FALSE.'' @ b1"
    unfolding a1_def b1_def using pass_inert_two [where d = "CHR ''.''" and X = "''t''" and Y = "''true''" and M = "''FALSE''" and M' = "''FALSE''" and a = a and b = b] by simp
  have c1: "\<not> suffix ''.FALSE'' a1"
    unfolding a1_def using pass_keeps_suffix [where d = "CHR ''.''" and Z = "''FALSE''" and Y = "''true''" and X = "''t''" and a = a] c0 by simp
  define a2 where "a2 = butlast (replace ''.TRUE.'' ''.true.'' (a1 @ ''.''))"
  define b2 where "b2 = tl (replace ''.TRUE.'' ''.true.'' (''.'' @ b1))"
  have e2: "replace ''.TRUE.'' ''.true.'' (a1 @ ''.'') = a2 @ ''.''"
    unfolding a2_def using replace_keeps_last [where d = "CHR ''.''" and X = "''TRUE''" and Y = "''true''" and a = a1] by simp
  have h2: "replace ''.TRUE.'' ''.true.'' (''.'' @ b1) = ''.'' @ b2"
    unfolding b2_def using replace_keeps_hd [where d = "CHR ''.''" and X = "''TRUE''" and Y = "''true''" and b = b1] by simp
  have m2: "replace ''.TRUE.'' ''.true.'' (a1 @ ''.FALSE.FALSE.'' @ b1) = a2 @ ''.FALSE.FALSE.'' @ b2"
    unfolding a2_def b2_def using pass_inert_two [where d = "CHR ''.''" and X = "''TRUE''" and Y = "''true''" and M = "''FALSE''" and M' = "''FALSE''" and a = a1 and b = b1] by simp
  have c2: "\<not> suffix ''.FALSE'' a2"
    unfolding a2_def using pass_keeps_suffix [where d = "CHR ''.''" and Z = "''FALSE''" and Y = "''true''" and X = "''TRUE''" and a = a1] c1 by simp
  define a3 where "a3 = butlast (replace ''.f.'' ''.false.'' (a2 @ ''.''))"
  define b3 where "b3 = tl (replace ''.f.'' ''.false.'' (''.'' @ b2))"
  have e3: "replace ''.f.'' ''.false.'' (a2 @ ''.'') = a3 @ ''.''"
    unfolding a3_def using replace_keeps_last [where d = "CHR ''.''" and X = "''f''" and Y = "''false''" and a = a2] by simp
  have h3: "replace ''.f.'' ''.false.'' (''.'' @ b2) = ''.'' @ b3"
    unfolding b3_def using replace_keeps_hd [where d = "CHR ''.''" and X = "''f''" and Y = "''false''" and b = b2] by simp
  have m3: "replace ''.f.'' ''.false.'' (a2 @ ''.FALSE.FALSE.'' @ b2) = a3 @ ''.FALSE.FALSE.'' @ b3"
    unfolding a3_def b3_def using pass_inert_two [where d = "CHR ''.''" and X = "''f''" and Y = "''false''" and M = "''FALSE''" and M' = "''FALSE''" and a = a2 and b = b2] by simp
  have c3: "\<not> suffix ''.FALSE'' a3"
    unfolding a3_def using pass_keeps_suffix [where d = "CHR ''.''" and Z = "''FALSE''" and Y = "''false''" and X = "''f''" and a = a2] c2 by simp
  define a4 where "a4 = butlast (replace ''.FALSE.'' ''.false.'' (a3 @ ''.''))"
  define b4 where "b4 = tl (replace ''.FALSE.'' ''.false.'' (''.'' @ b3))"
  have e4: "replace ''.FALSE.'' ''.false.'' (a3 @ ''.'') = a4 @ ''.''"
    unfolding a4_def using replace_keeps_last [where d = "CHR ''.''" and X = "''FALSE''" and Y = "''false''" and a = a3] by simp
  have h4: "replace ''.FALSE.'' ''.false.'' (''.'' @ b3) = ''.'' @ b4"
    unfolding b4_def using replace_keeps_hd [where d = "CHR ''.''" and X = "''FALSE''" and Y = "''false''" and b = b3] by simp
  have m4: "replace ''.FALSE.'' ''.false.'' (a3 @ ''.FALSE.FALSE.'' @ b3) = a4 @ ''.false.FALSE.'' @ b4"
    unfolding a4_def b4_def using pass_double [where d = "CHR ''.''" and X = "''FALSE''" and Y = "''false''" and a = a3 and b = b3] c3 by simp
  have A: "normalize_bools (a @ ''.'') = a4 @ ''.''"
    by (simp only: normalize_bools_def e1 e2 e3 e4)
  have B: "normalize_bools (''.'' @ b) = ''.'' @ b4"
    by (simp only: normalize_bools_def h1 h2 h3 h4)
  have C: "normalize_bools (a @ ''.FALSE.FALSE.'' @ b) = a4 @ ''.false.FALSE.'' @ b4"
    by (simp only: normalize_bools_def m1 m2 m3 m4)
  show "normalize_bools (a @ ''.FALSE.FALSE.'' @ b)
         = butlast (normalize_bools (a @ ''.'')) @ ''.false.FALSE.'' @ tl (normalize_bools (''.'' @ b))"
    unfolding A B C by simp
  show "normalize_bools (a @ ''.'') = butlast (normalize_bools (a @ ''.'')) @ ''.''"
    unfolding A by simp
  show "normalize_bools (''.'' @ b) = ''.'' @ tl (normalize_bools (''.'' @ b))"
    unfolding B by simp
qed

lemma quote_around:
  assumes m: "normalize_bools (a @ occ @ b)
              = butlast (normalize_bools (a @ ''.'')) @ new @ tl (normalize_bools (''.'' @ b))"
    and l: "normalize_bools (a @ ''.'') = butlast (normalize_bools (a @ ''.'')) @ ''.''"
    and r: "normalize_bools (''.'' @ b) = ''.'' @ tl (normalize_bools (''.'' @ b))"
    and q: "CHR 0x22 \<notin> set new"
  shows "\<exists>a' b'. normalize_quotes (normalize_bools (a @ ''.'')) = a' @ ''.'' \<and>
                 normalize_quotes (normalize_bools (''.'' @ b)) = ''.'' @ b' \<and>
                 normalize_quotes (normalize_bools (a @ occ @ b)) = a' @ new @ b'"
proof -
  define A where "A = butlast (normalize_bools (a @ ''.''))"
  define B where "B = tl (normalize_bools (''.'' @ b))"
  have l': "normalize_bools (a @ ''.'') = A @ ''.''" using l unfolding A_def .
  have r': "normalize_bools (''.'' @ b) = ''.'' @ B" using r unfolding B_def .
  have m': "normalize_bools (a @ occ @ b) = A @ new @ B" using m unfolding A_def B_def .
  have n: "map quote_map new = new" using q by (induction new) auto
  have "normalize_quotes (normalize_bools (a @ ''.'')) = map quote_map A @ ''.''"
    unfolding l' by (simp add: normalize_quotes_map)
  moreover have "normalize_quotes (normalize_bools (''.'' @ b)) = ''.'' @ map quote_map B"
    unfolding r' by (simp add: normalize_quotes_map)
  moreover have "normalize_quotes (normalize_bools (a @ occ @ b))
                 = map quote_map A @ new @ map quote_map B"
    unfolding m' by (simp add: normalize_quotes_map n)
  ultimately show ?thesis by blast
qed


























lemma line_key_None: "line_key l = None \<longleftrightarrow> parse_key_val_pair l = Inl ValueError"
proof (cases "parse_key_val_pair l")
  case (Inl e)
  then show ?thesis by (cases e) (simp add: line_key_def)
next
  case (Inr r)
  then show ?thesis by (simp add: line_key_def split: prod.splits)
qed
















































section \<open>The claims\<close>

text \<open>
  Claim C8.  For every input string, \<^const>\<open>find_longest_key\<close> returns the length of the
  longest key among the lines that \<^const>\<open>parse_key_val_pair\<close> accepts, and \<open>-1\<close> when
  no line parses.  It never raises: the \<^verbatim>\<open>ValueError\<close> of a line that does not
  parse is the branch of \<^const>\<open>longest_key_loop\<close> that goes on with the next line, and
  the function is total.
\<close>

theorem find_longest_key_spec:
  "find_longest_key content =
     (if parsed_keys (splitlines content) = [] then - 1
      else Max (set (map (\<lambda>k. int (length k)) (parsed_keys (splitlines content)))))"
proof (cases "parsed_keys (splitlines content) = []")
  case True
  then show ?thesis by (simp add: find_longest_key_def longest_key_loop_Max)
next
  case False
  let ?S = "set (map (\<lambda>k. int (length k)) (parsed_keys (splitlines content)))"
  have fin: "finite ?S" and ne: "?S \<noteq> {}" using False by simp_all
  have "Max ?S \<in> ?S" using fin ne by (rule Max_in)
  then have "0 \<le> Max ?S" by auto
  then have "max (- 1) (Max ?S) = Max ?S" by simp
  moreover have "find_longest_key content = Max (insert (- 1) ?S)"
    by (simp add: find_longest_key_def longest_key_loop_Max)
  ultimately show ?thesis using False fin ne by (simp add: Max_insert del: set_map)
qed

text \<open>
  Claim C10.  \<^const>\<open>parse_key_val_pair\<close> splits at the first \<open>!\<close> of the line before
  anything else, quotes included: the line \<open>a ! b\<close>, where \<open>a\<close> has no \<open>!\<close>,
  parses as \<open>a\<close> alone does, the text after the \<open>!\<close> goes to the comment, and the
  value never contains a \<open>!\<close>.
\<close>

theorem bang_splits_before_quotes:
  assumes "CHR ''!'' \<notin> set a"
  shows "parse_key_val_pair (a @ CHR ''!'' # b) =
           (case parse_key_val_pair a of
              Inl e \<Rightarrow> Inl e
            | Inr (k, v, c) \<Rightarrow> Inr (k, v, '' ! '' @ strip b))
         \<and> (\<forall>k v c. parse_key_val_pair (a @ CHR ''!'' # b) = Inr (k, v, c) \<longrightarrow>
               CHR ''!'' \<notin> set v \<and> c = '' ! '' @ strip b)"
proof -
  have eq: "parse_key_val_pair (a @ CHR ''!'' # b) =
           (case parse_key_val_pair a of
              Inl e \<Rightarrow> Inl e
            | Inr (k, v, c) \<Rightarrow> Inr (k, v, '' ! '' @ strip b))"
    using assms by (simp add: parse_bang parse_no_bang split: option.splits)
  have "CHR ''!'' \<notin> set v \<and> c = '' ! '' @ strip b"
    if p: "parse_key_val_pair (a @ CHR ''!'' # b) = Inr (k, v, c)" for k v c
  proof -
    have "takeWhile (\<lambda>c. c \<noteq> CHR ''!'') (a @ CHR ''!'' # b) = a"
      using assms by (simp add: takeWhile_neq_append)
    then have "set v \<subseteq> set a" using parse_value_set(2) [OF p] by simp
    moreover have "c = '' ! '' @ strip b"
      using p assms by (auto simp: parse_bang split: option.splits)
    ultimately show ?thesis using assms by blast
  qed
  with eq show ?thesis by blast
qed

theorem bang_splits_before_quotes_witness:
  "CHR ''!'' \<notin> set [CHR ''x'', CHR '' '', CHR ''='', CHR '' '', CHR 0x27, CHR ''a'']
   \<and> parse_key_val_pair ([CHR ''x'', CHR '' '', CHR ''='', CHR '' '', CHR 0x27, CHR ''a'']
        @ CHR ''!'' # [CHR ''b'', CHR 0x27])
     = Inr (''x'', [CHR 0x27, CHR ''a''], [CHR '' '', CHR ''!'', CHR '' '', CHR ''b'', CHR 0x27])"
proof -
  have h: "CHR ''!'' \<notin> set [CHR ''x'', CHR '' '', CHR ''='', CHR '' '', CHR 0x27, CHR ''a'']"
    by simp
  have p: "parse_key_val_pair [CHR ''x'', CHR '' '', CHR ''='', CHR '' '', CHR 0x27, CHR ''a'']
      = Inr (''x'', [CHR 0x27, CHR ''a''], '''')"
    by code_simp
  have s: "strip [CHR ''b'', CHR 0x27] = [CHR ''b'', CHR 0x27]" by code_simp
  note t = bang_splits_before_quotes [OF h, of "[CHR ''b'', CHR 0x27]", THEN conjunct1]
  have "parse_key_val_pair ([CHR ''x'', CHR '' '', CHR ''='', CHR '' '', CHR 0x27, CHR ''a'']
        @ CHR ''!'' # [CHR ''b'', CHR 0x27])
     = Inr (''x'', [CHR 0x27, CHR ''a''], [CHR '' '', CHR ''!'', CHR '' '', CHR ''b'', CHR 0x27])"
    unfolding t p s by simp
  with h show ?thesis by blast
qed

text \<open>
  Claim C3.  The key of an assignment line is meant to be lowercased (the docstring of
  \<^verbatim>\<open>parse_key_val_pair\<close> says so), but the code returns group 1 of the match as it
  is: the key \<open>KEY\<close> is printed as \<open>KEY\<close>.
\<close>

theorem keys_keep_their_case:
  "format_nml ''KEY = 1'' 5 2 True True True = Inr ''  KEY     = 1,''"
  by code_simp

text \<open>
  Claim C5.  A blank input line outside any block is dropped whatever the
  configuration, and a blank input line inside a block is kept if and only if
  \<open>keep_whitelines\<close> is set: between what the lines before it and the lines after it
  contribute, the blank line contributes one empty line when \<open>kw\<close> holds and the line is
  inside a block, and nothing otherwise.
\<close>

theorem blank_line_policy:
  assumes "format_nml_lines content off bi tc kc kw = Inr out"
    and "splitlines content = before @ raw # after"
    and "strip raw = ''''"
  shows "\<exists>out1 out2 bE.
           format_loop (find_longest_key content + off) bi tc kc kw (False, []) before
             = Inr (inside_block before, out1) \<and>
           format_loop (find_longest_key content + off) bi tc kc kw (inside_block before, []) after
             = Inr (bE, out2) \<and>
           out = out1 @ (if kw \<and> inside_block before then [''''] else []) @ out2"
proof -
  from document_line [OF assms(1,2)] obtain out1 b2 chunk out2 bE where
    1: "format_loop (find_longest_key content + off) bi tc kc kw (False, []) before
          = Inr (inside_block before, out1)" and
    2: "format_step (find_longest_key content + off) bi tc kc kw (inside_block before, []) raw
          = Inr (b2, chunk)" and
    3: "format_loop (find_longest_key content + off) bi tc kc kw (b2, []) after = Inr (bE, out2)" and
    4: "out = out1 @ chunk @ out2"
    by blast
  have "classify raw = Blank" using assms(3) by (rule classify_Blank)
  then have "b2 = inside_block before"
    and "chunk = (if kw \<and> inside_block before then [''''] else [])"
    using 2 by (auto simp: format_step_classify)
  then show ?thesis using 1 3 4 by blast
qed

theorem blank_line_policy_witness:
  "format_nml_lines ''&a\<newline> \<newline>/\<newline>\<newline>x=1'' 5 2 True True True
     = Inr [''&a'', '''', ''/'', '''', ''  x     = 1,'']
   \<and> splitlines ''&a\<newline> \<newline>/\<newline>\<newline>x=1'' = [''&a''] @ '' '' # [''/'', '''', ''x=1'']
   \<and> strip '' '' = ''''
   \<and> (\<exists>out1 out2 bE.
           format_loop (find_longest_key ''&a\<newline> \<newline>/\<newline>\<newline>x=1'' + 5) 2 True True True (False, []) [''&a'']
             = Inr (inside_block [''&a''], out1) \<and>
           format_loop (find_longest_key ''&a\<newline> \<newline>/\<newline>\<newline>x=1'' + 5) 2 True True True
               (inside_block [''&a''], []) [''/'', '''', ''x=1'']
             = Inr (bE, out2) \<and>
           [''&a'', '''', ''/'', '''', ''  x     = 1,'']
             = out1 @ (if True \<and> inside_block [''&a''] then [''''] else []) @ out2)"
proof -
  have 1: "format_nml_lines ''&a\<newline> \<newline>/\<newline>\<newline>x=1'' 5 2 True True True
     = Inr [''&a'', '''', ''/'', '''', ''  x     = 1,'']"
    by code_simp
  have 2: "splitlines ''&a\<newline> \<newline>/\<newline>\<newline>x=1'' = [''&a''] @ '' '' # [''/'', '''', ''x=1'']"
    by code_simp
  have 3: "strip '' '' = ''''" by code_simp
  from blank_line_policy [OF 1 2 3] 1 2 3 show ?thesis by blast
qed

text \<open>
  Claim C7.  An input line whose trimmed content is exactly \<open>/\<close> leaves the block state
  and emits \<open>/\<close> followed by exactly one blank separator line, whatever the options: the
  lines after it are formatted from the state outside a block, and what they emit does
  not begin with a second blank line.
\<close>

theorem block_close_separator:
  assumes "format_nml_lines content off bi tc kc kw = Inr out"
    and "splitlines content = before @ raw # after"
    and "strip raw = ''/''"
  shows "\<exists>out1 out2 bE.
           format_loop (find_longest_key content + off) bi tc kc kw (False, []) before
             = Inr (inside_block before, out1) \<and>
           format_loop (find_longest_key content + off) bi tc kc kw (False, []) after
             = Inr (bE, out2) \<and>
           out = out1 @ [''/'', ''''] @ out2 \<and>
           (out2 = [] \<or> hd out2 \<noteq> '''')"
proof -
  from document_line [OF assms(1,2)] obtain out1 b2 chunk out2 bE where
    1: "format_loop (find_longest_key content + off) bi tc kc kw (False, []) before
          = Inr (inside_block before, out1)" and
    2: "format_step (find_longest_key content + off) bi tc kc kw (inside_block before, []) raw
          = Inr (b2, chunk)" and
    3: "format_loop (find_longest_key content + off) bi tc kc kw (b2, []) after = Inr (bE, out2)" and
    4: "out = out1 @ chunk @ out2"
    by blast
  have "classify raw = BlockClose" using assms(3) by (rule classify_BlockClose)
  then have b2: "b2 = False" and c: "chunk = [''/'', '''']"
    using 2 by (auto simp: format_step_classify)
  have "out2 = [] \<or> hd out2 \<noteq> ''''"
    using 3 unfolding b2 by (rule format_loop_outside_first)
  then show ?thesis using 1 3 4 b2 c by blast
qed

theorem block_close_separator_witness:
  "format_nml_lines ''&a\<newline>  /  \<newline>\<newline>x=1'' 5 2 True True False
     = Inr [''&a'', ''/'', '''', ''  x     = 1,'']
   \<and> splitlines ''&a\<newline>  /  \<newline>\<newline>x=1'' = [''&a''] @ ''  /  '' # ['''', ''x=1'']
   \<and> strip ''  /  '' = ''/''
   \<and> (\<exists>out1 out2 bE.
           format_loop (find_longest_key ''&a\<newline>  /  \<newline>\<newline>x=1'' + 5) 2 True True False (False, []) [''&a'']
             = Inr (inside_block [''&a''], out1) \<and>
           format_loop (find_longest_key ''&a\<newline>  /  \<newline>\<newline>x=1'' + 5) 2 True True False (False, [])
               ['''', ''x=1'']
             = Inr (bE, out2) \<and>
           [''&a'', ''/'', '''', ''  x     = 1,''] = out1 @ [''/'', ''''] @ out2 \<and>
           (out2 = [] \<or> hd out2 \<noteq> ''''))"
proof -
  have 1: "format_nml_lines ''&a\<newline>  /  \<newline>\<newline>x=1'' 5 2 True True False
     = Inr [''&a'', ''/'', '''', ''  x     = 1,'']"
    by code_simp
  have 2: "splitlines ''&a\<newline>  /  \<newline>\<newline>x=1'' = [''&a''] @ ''  /  '' # ['''', ''x=1'']"
    by code_simp
  have 3: "strip ''  /  '' = ''/''" by code_simp
  from block_close_separator [OF 1 2 3] 1 2 3 show ?thesis by blast
qed

text \<open>
  Claim C9.  Every assignment line formatted by \<^const>\<open>format_nml\<close> begins with
  \<open>block_indent\<close> spaces followed by the key, inside a block or not: the step of the
  loop emits the same line from either value of the flag \<open>in_block\<close>.  The flag only
  decides the indentation of a full-line comment.
\<close>

theorem assignment_indent_unconditional:
  assumes "format_nml_lines content off bi tc kc kw = Inr out"
    and "splitlines content = before @ raw # after"
    and "classify raw = Assignment"
  shows "(\<exists>key val comment rest out1 out2 bE.
            parse_key_val_pair (clean raw) = Inr (key, val, comment) \<and>
            key \<noteq> [] \<and> \<not> is_space (hd key) \<and>
            format_loop (find_longest_key content + off) bi tc kc kw (False, []) before
              = Inr (inside_block before, out1) \<and>
            format_loop (find_longest_key content + off) bi tc kc kw (inside_block before, []) after
              = Inr (bE, out2) \<and>
            out = out1 @ [spaces bi @ key @ rest] @ out2 \<and>
            (\<forall>b. format_step (find_longest_key content + off) bi tc kc kw (b, []) raw
                   = Inr (b, [spaces bi @ key @ rest])))
         \<and> (\<forall>cl b a. classify cl = Comment \<longrightarrow>
               format_step a bi tc True kw (b, []) cl
                 = Inr (b, [(if b then spaces bi else '''') @ ''! '' @ strip (tl (strip cl))]))"
proof -
  let ?A = "find_longest_key content + off"
  from document_line [OF assms(1,2)] obtain out1 b2 chunk out2 bE where
    1: "format_loop ?A bi tc kc kw (False, []) before = Inr (inside_block before, out1)" and
    2: "format_step ?A bi tc kc kw (inside_block before, []) raw = Inr (b2, chunk)" and
    3: "format_loop ?A bi tc kc kw (b2, []) after = Inr (bE, out2)" and
    4: "out = out1 @ chunk @ out2"
    by blast
  from 2 assms(3) obtain s where
    s: "format_line (clean raw) ?A bi tc kc = Inr s" and c: "chunk = [s]"
    and b2: "b2 = inside_block before"
    by (auto simp: format_step_classify split: sum.splits)
  from format_line_shape [OF s] obtain key val comment rest where
    p: "parse_key_val_pair (clean raw) = Inr (key, val, comment)" and
    sh: "s = spaces bi @ key @ rest"
    by blast
  have k: "key \<noteq> []" "\<forall>x\<in>set key. is_key_char x" using parse_key_props [OF p] by simp_all
  then have "is_key_char (hd key)" by simp
  then have h: "\<not> is_space (hd key)" by (rule key_char_not_space)
  have all: "\<forall>b. format_step ?A bi tc kc kw (b, []) raw = Inr (b, [spaces bi @ key @ rest])"
    using assms(3) s sh by (simp add: format_step_classify)
  have A: "\<exists>key val comment rest out1 out2 bE.
            parse_key_val_pair (clean raw) = Inr (key, val, comment) \<and>
            key \<noteq> [] \<and> \<not> is_space (hd key) \<and>
            format_loop ?A bi tc kc kw (False, []) before = Inr (inside_block before, out1) \<and>
            format_loop ?A bi tc kc kw (inside_block before, []) after = Inr (bE, out2) \<and>
            out = out1 @ [spaces bi @ key @ rest] @ out2 \<and>
            (\<forall>b. format_step ?A bi tc kc kw (b, []) raw = Inr (b, [spaces bi @ key @ rest]))"
    using p k(1) h 1 3 4 c sh b2 all by blast
  have B: "\<forall>cl b a. classify cl = Comment \<longrightarrow>
               format_step a bi tc True kw (b, []) cl
                 = Inr (b, [(if b then spaces bi else '''') @ ''! '' @ strip (tl (strip cl))])"
    by (simp add: format_step_classify)
  from A B show ?thesis by (rule conjI)
qed

theorem assignment_indent_unconditional_witness:
  "format_nml_lines ''x = 1'' 5 2 True True True = Inr [''  x     = 1,'']
   \<and> splitlines ''x = 1'' = [] @ ''x = 1'' # []
   \<and> classify ''x = 1'' = Assignment
   \<and> classify ''!hi'' = Comment
   \<and> (\<exists>key val comment rest out1 out2 bE.
            parse_key_val_pair (clean ''x = 1'') = Inr (key, val, comment) \<and>
            key \<noteq> [] \<and> \<not> is_space (hd key) \<and>
            format_loop (find_longest_key ''x = 1'' + 5) 2 True True True (False, []) []
              = Inr (inside_block [], out1) \<and>
            format_loop (find_longest_key ''x = 1'' + 5) 2 True True True (inside_block [], []) []
              = Inr (bE, out2) \<and>
            [''  x     = 1,''] = out1 @ [spaces 2 @ key @ rest] @ out2 \<and>
            (\<forall>b. format_step (find_longest_key ''x = 1'' + 5) 2 True True True (b, []) ''x = 1''
                   = Inr (b, [spaces 2 @ key @ rest])))
   \<and> format_step 0 2 True True True (False, []) ''!hi''
        = Inr (False, [(if False then spaces 2 else '''') @ ''! '' @ strip (tl (strip ''!hi''))])"
proof -
  have 1: "format_nml_lines ''x = 1'' 5 2 True True True = Inr [''  x     = 1,'']"
    by code_simp
  have 2: "splitlines ''x = 1'' = [] @ ''x = 1'' # []" by code_simp
  have 3: "classify ''x = 1'' = Assignment" by code_simp
  have 4: "classify ''!hi'' = Comment" by code_simp
  note T = assignment_indent_unconditional [OF 1 2 3]
  note A = T [THEN conjunct1]
  note B = T [THEN conjunct2, rule_format, OF 4, of 0 False]
  show ?thesis using 1 2 3 4 A B by (intro conjI)
qed

text \<open>
  Claim C2, as amended.  The line emitted for an assignment line is the block indentation,
  the key, the padding, \<open> = \<close> and the rest, and the padding is
  \<open>max (longest_key + eq_offset - length key - 1) 1\<close> spaces, where \<open>longest_key\<close> is the
  result of the first pass and no key is longer than it.  The \<open>=\<close> sign therefore stands in
  column \<open>max block_indent 0 + longest_key + eq_offset\<close>, counted from 0 and the same for
  every such line of the document, whenever the formula gives at least one space of padding;
  this is always so when \<open>eq_offset\<close> is at least 2.  Whenever the formula gives less than
  one space, the padding is exactly one space, and the \<open>=\<close> sign then stands
  \<open>length key + 2\<close> columns after the block indentation.
\<close>

theorem alignment_when_not_clamped:
  assumes "format_nml_lines content off bi tc kc kw = Inr out"
    and "splitlines content = before @ raw # after"
    and "classify raw = Assignment"
  shows "\<exists>key val comment s out1 out2 bE rest.
           parse_key_val_pair (clean raw) = Inr (key, val, comment) \<and>
           format_line (clean raw) (find_longest_key content + off) bi tc kc = Inr s \<and>
           format_loop (find_longest_key content + off) bi tc kc kw (False, []) before
             = Inr (inside_block before, out1) \<and>
           format_loop (find_longest_key content + off) bi tc kc kw (inside_block before, []) after
             = Inr (bE, out2) \<and>
           out = out1 @ [s] @ out2 \<and>
           int (length key) \<le> find_longest_key content \<and>
           s = spaces bi @ key
               @ spaces (max (find_longest_key content + off - int (length key) - 1) 1)
               @ '' = '' @ rest \<and>
           int (eq_column s)
             = max bi 0 + int (length key)
               + max (find_longest_key content + off - int (length key) - 1) 1 + 1 \<and>
           (1 \<le> find_longest_key content + off - int (length key) - 1 \<longrightarrow>
              int (eq_column s) = max bi 0 + (find_longest_key content + off)) \<and>
           (find_longest_key content + off - int (length key) - 1 < 1 \<longrightarrow>
              s = spaces bi @ key @ '' '' @ '' = '' @ rest \<and>
              int (eq_column s) = max bi 0 + int (length key) + 2) \<and>
           (2 \<le> off \<longrightarrow> int (eq_column s) = max bi 0 + (find_longest_key content + off))"
proof -
  let ?L = "find_longest_key content"
  let ?A = "?L + off"
  from document_line [OF assms(1,2)] obtain out1 b2 chunk out2 bE where
    1: "format_loop ?A bi tc kc kw (False, []) before = Inr (inside_block before, out1)" and
    2: "format_step ?A bi tc kc kw (inside_block before, []) raw = Inr (b2, chunk)" and
    3: "format_loop ?A bi tc kc kw (b2, []) after = Inr (bE, out2)" and
    4: "out = out1 @ chunk @ out2"
    by blast
  from 2 assms(3) obtain s where
    s: "format_line (clean raw) ?A bi tc kc = Inr s" and c: "chunk = [s]"
    and b2: "b2 = inside_block before"
    by (auto simp: format_step_classify split: sum.splits)
  from format_line_shape [OF s] obtain key val comment rest where
    p: "parse_key_val_pair (clean raw) = Inr (key, val, comment)" and
    sh: "s = spaces bi @ key @ spaces (max (?A - int (length key) - 1) 1) @ '' = '' @ rest"
    by blast
  have k: "\<forall>x\<in>set key. is_key_char x" using parse_key_props(2) [OF p] .
  have "raw \<in> set (splitlines content)" unfolding assms(2) by simp
  then have le: "int (length key) \<le> ?L" using p by (rule clean_key_le_longest)
  have col: "eq_column s = nat bi + length key + nat (max (?A - int (length key) - 1) 1) + 1"
    unfolding sh using k by (rule eq_column_format)
  have ia: "int (nat bi) = max bi 0" by (simp add: max_def)
  have ib: "int (nat (max (?A - int (length key) - 1) 1)) = max (?A - int (length key) - 1) 1"
    by (simp add: max_def)
  have "int (eq_column s)
        = int (nat bi) + int (length key) + int (nat (max (?A - int (length key) - 1) 1)) + 1"
    unfolding col by (simp only: of_nat_add of_nat_1)
  then have col1: "int (eq_column s)
        = max bi 0 + int (length key) + max (?A - int (length key) - 1) 1 + 1"
    unfolding ia ib .
  have col2: "2 \<le> off \<longrightarrow> int (eq_column s) = max bi 0 + (?L + off)"
    unfolding col1 using le by simp
  have col3: "1 \<le> ?A - int (length key) - 1 \<longrightarrow> int (eq_column s) = max bi 0 + (?L + off)"
    unfolding col1 by simp
  have one: "spaces 1 = '' ''" by (simp add: spaces_def)
  have col4: "?A - int (length key) - 1 < 1 \<longrightarrow>
              s = spaces bi @ key @ '' '' @ '' = '' @ rest \<and>
              int (eq_column s) = max bi 0 + int (length key) + 2"
  proof
    assume lt: "?A - int (length key) - 1 < 1"
    then have m: "max (?A - int (length key) - 1) 1 = 1" by simp
    have "s = spaces bi @ key @ '' '' @ '' = '' @ rest" using sh unfolding m one .
    moreover have "int (eq_column s) = max bi 0 + int (length key) + 2"
      using col1 unfolding m by simp
    ultimately show "s = spaces bi @ key @ '' '' @ '' = '' @ rest \<and>
              int (eq_column s) = max bi 0 + int (length key) + 2" by (rule conjI)
  qed
  have l3: "format_loop ?A bi tc kc kw (inside_block before, []) after = Inr (bE, out2)"
    using 3 unfolding b2 .
  have l4: "out = out1 @ [s] @ out2" using 4 unfolding c .
  from p s 1 l3 l4 le sh col1 col3 col4 col2 show ?thesis by blast
qed

theorem alignment_when_not_clamped_witness:
  "format_nml_lines ''a = 1\<newline>abc = 2'' 5 2 True True True
     = Inr [''  a       = 1,'', ''  abc     = 2,'']
   \<and> splitlines ''a = 1\<newline>abc = 2'' = [] @ ''a = 1'' # [''abc = 2'']
   \<and> classify ''a = 1'' = Assignment
   \<and> (2::int) \<le> 5
   \<and> (\<exists>s out1 out2.
         [''  a       = 1,'', ''  abc     = 2,''] = out1 @ [s] @ out2 \<and>
         format_line (clean ''a = 1'') (find_longest_key ''a = 1\<newline>abc = 2'' + 5) 2 True True = Inr s \<and>
         int (eq_column s) = max 2 0 + (find_longest_key ''a = 1\<newline>abc = 2'' + 5))"
proof -
  have 1: "format_nml_lines ''a = 1\<newline>abc = 2'' 5 2 True True True
     = Inr [''  a       = 1,'', ''  abc     = 2,'']"
    by code_simp
  have 2: "splitlines ''a = 1\<newline>abc = 2'' = [] @ ''a = 1'' # [''abc = 2'']" by code_simp
  have 3: "classify ''a = 1'' = Assignment" by code_simp
  have 4: "(2::int) \<le> 5" by simp
  from alignment_when_not_clamped [OF 1 2 3] obtain s out1 out2 where
    a: "[''  a       = 1,'', ''  abc     = 2,''] = out1 @ [s] @ out2" and
    b: "format_line (clean ''a = 1'') (find_longest_key ''a = 1\<newline>abc = 2'' + 5) 2 True True = Inr s" and
    c: "2 \<le> (5::int) \<longrightarrow>
        int (eq_column s) = max 2 0 + (find_longest_key ''a = 1\<newline>abc = 2'' + 5)"
    by blast
  from c 4 have d: "int (eq_column s) = max 2 0 + (find_longest_key ''a = 1\<newline>abc = 2'' + 5)"
    by (rule mp)
  from a b d have "\<exists>s out1 out2.
         [''  a       = 1,'', ''  abc     = 2,''] = out1 @ [s] @ out2 \<and>
         format_line (clean ''a = 1'') (find_longest_key ''a = 1\<newline>abc = 2'' + 5) 2 True True = Inr s \<and>
         int (eq_column s) = max 2 0 + (find_longest_key ''a = 1\<newline>abc = 2'' + 5)"
    by blast
  with 1 2 3 4 show ?thesis by (intro conjI)
qed

text \<open>
  The claim C2 as stated leaves out the block indentation: with the default options
  (\<open>eq_offset = 5\<close>, \<open>block_indent = 2\<close>) the keys \<open>a\<close> and \<open>abc\<close> get 6 and 4 spaces of
  padding, so neither is clamped, and both \<open>=\<close> signs stand in column 10, while
  \<open>longest_key + eq_offset\<close> is 8.
\<close>

theorem alignment_counterexample:
  "format_nml_lines ''a = 1\<newline>abc = 2'' 5 2 True True True
     = Inr [''  a       = 1,'', ''  abc     = 2,'']
   \<and> find_longest_key ''a = 1\<newline>abc = 2'' + 5 = 8
   \<and> eq_column ''  a       = 1,'' = 10
   \<and> eq_column ''  abc     = 2,'' = 10"
proof -
  have "format_nml_lines ''a = 1\<newline>abc = 2'' 5 2 True True True
     = Inr [''  a       = 1,'', ''  abc     = 2,'']"
    by code_simp
  moreover have "find_longest_key ''a = 1\<newline>abc = 2'' + 5 = 8" by code_simp
  moreover have "eq_column ''  a       = 1,'' = 10" by code_simp
  moreover have "eq_column ''  abc     = 2,'' = 10" by code_simp
  ultimately show ?thesis by blast
qed

text \<open>
  Claim C4, as amended.  \<^const>\<open>parse_key_val_pair\<close> raises the parse error if and only
  if the part of the line before the first \<open>!\<close> does not start with: optional white
  space, an optional comma, optional white space, a key of characters that are neither
  white space nor \<open>=\<close>, optional white space, and one or more \<open>=\<close>.  On success the
  comment is \<open>" ! "\<close> followed by the trimmed text after the first \<open>!\<close> for a line that
  contains a \<open>!\<close>, and empty otherwise.
\<close>

theorem parse_error_iff_no_match:
  "(parse_key_val_pair line = Inl ValueError
      \<longleftrightarrow> \<not> regex_pattern (takeWhile (\<lambda>c. c \<noteq> CHR ''!'') line))
   \<and> (\<forall>k v c. parse_key_val_pair line = Inr (k, v, c) \<longrightarrow>
         c = (if CHR ''!'' \<in> set line
              then '' ! '' @ strip (tl (dropWhile (\<lambda>c. c \<noteq> CHR ''!'') line)) else ''''))"
proof -
  have "parse_key_val_pair line = Inl ValueError
      \<longleftrightarrow> eq_match (takeWhile (\<lambda>c. c \<noteq> CHR ''!'') line) = None"
    by (simp add: parse_alt split: option.splits)
  then have A: "parse_key_val_pair line = Inl ValueError
      \<longleftrightarrow> \<not> regex_pattern (takeWhile (\<lambda>c. c \<noteq> CHR ''!'') line)"
    by (simp only: eq_match_iff_regex_pattern)
  have B: "\<forall>k v c. parse_key_val_pair line = Inr (k, v, c) \<longrightarrow>
         c = (if CHR ''!'' \<in> set line
              then '' ! '' @ strip (tl (dropWhile (\<lambda>c. c \<noteq> CHR ''!'') line)) else '''')"
    by (auto simp: parse_alt split: option.splits)
  from A B show ?thesis by (rule conjI)
qed

theorem parse_error_iff_no_match_witness:
  "parse_key_val_pair ''x = 1 ! c'' = Inr (''x'', ''1'', '' ! c'')
   \<and> regex_pattern (takeWhile (\<lambda>c. c \<noteq> CHR ''!'') ''x = 1 ! c'')
   \<and> '' ! c'' = (if CHR ''!'' \<in> set ''x = 1 ! c''
                 then '' ! '' @ strip (tl (dropWhile (\<lambda>c. c \<noteq> CHR ''!'') ''x = 1 ! c'')) else '''')"
proof -
  have p: "parse_key_val_pair ''x = 1 ! c'' = Inr (''x'', ''1'', '' ! c'')" by code_simp
  note T = parse_error_iff_no_match [of "''x = 1 ! c''"]
  from T [THEN conjunct1] p
  have A: "regex_pattern (takeWhile (\<lambda>c. c \<noteq> CHR ''!'') ''x = 1 ! c'')" by simp
  from T [THEN conjunct2, rule_format, OF p]
  have B: "'' ! c'' = (if CHR ''!'' \<in> set ''x = 1 ! c''
                 then '' ! '' @ strip (tl (dropWhile (\<lambda>c. c \<noteq> CHR ''!'') ''x = 1 ! c'')) else '''')" .
  from p A B show ?thesis by (intro conjI)
qed

text \<open>
  The claim C4 as stated leaves out the white space that the pattern allows after the
  comma and before the \<open>=\<close>: the line \<open>, x = 1\<close> does not match the pattern of the
  claim, and it parses.
\<close>

theorem parse_pattern_counterexample:
  "\<not> (parse_key_val_pair '', x = 1'' = Inl ValueError
        \<longleftrightarrow> \<not> claimed_pattern (takeWhile (\<lambda>c. c \<noteq> CHR ''!'') '', x = 1''))"
proof -
  have p: "parse_key_val_pair '', x = 1'' = Inr (''x'', ''1'', '''')" by code_simp
  have t: "takeWhile (\<lambda>c. c \<noteq> CHR ''!'') '', x = 1'' = '', x = 1''" by simp
  show ?thesis unfolding t p using not_claimed_pattern_example by simp
qed

text \<open>
  Claim C6, as amended.  In the value normalization of \<^const>\<open>format_line\<close>, an occurrence
  of \<open>.t.\<close> or \<open>.TRUE.\<close> that shares no dot with another occurrence of the same literal
  is replaced by \<open>.true.\<close>, and such an occurrence of \<open>.f.\<close> or \<open>.FALSE.\<close> by
  \<open>.false.\<close>, wherever it stands in the value: the result is \<open>a'\<close>, the new literal and
  \<open>b'\<close>, where \<open>a'\<close> with the first dot of the occurrence is what the text up to that dot
  becomes and the last dot with \<open>b'\<close> is what the text from that dot on becomes.  The two
  dots may belong to occurrences of the other literals, which are replaced as well.  Of
  two occurrences of the same literal that share a dot, the first of which shares no dot
  with a third one before it, the first is replaced and the second is left as it is, and
  the replacement goes on from the last dot of the second.  Every double quote becomes a
  single quote, so that no double quote is left.
\<close>

theorem value_normalization:
  "(\<not> suffix ''.t'' a \<and> \<not> prefix ''t.'' b \<longrightarrow>
      (\<exists>a' b'. normalize_quotes (normalize_bools (a @ ''.'')) = a' @ ''.'' \<and>
               normalize_quotes (normalize_bools (''.'' @ b)) = ''.'' @ b' \<and>
               normalize_quotes (normalize_bools (a @ ''.t.'' @ b)) = a' @ ''.true.'' @ b'))
   \<and> (\<not> suffix ''.TRUE'' a \<and> \<not> prefix ''TRUE.'' b \<longrightarrow>
      (\<exists>a' b'. normalize_quotes (normalize_bools (a @ ''.'')) = a' @ ''.'' \<and>
               normalize_quotes (normalize_bools (''.'' @ b)) = ''.'' @ b' \<and>
               normalize_quotes (normalize_bools (a @ ''.TRUE.'' @ b)) = a' @ ''.true.'' @ b'))
   \<and> (\<not> suffix ''.f'' a \<and> \<not> prefix ''f.'' b \<longrightarrow>
      (\<exists>a' b'. normalize_quotes (normalize_bools (a @ ''.'')) = a' @ ''.'' \<and>
               normalize_quotes (normalize_bools (''.'' @ b)) = ''.'' @ b' \<and>
               normalize_quotes (normalize_bools (a @ ''.f.'' @ b)) = a' @ ''.false.'' @ b'))
   \<and> (\<not> suffix ''.FALSE'' a \<and> \<not> prefix ''FALSE.'' b \<longrightarrow>
      (\<exists>a' b'. normalize_quotes (normalize_bools (a @ ''.'')) = a' @ ''.'' \<and>
               normalize_quotes (normalize_bools (''.'' @ b)) = ''.'' @ b' \<and>
               normalize_quotes (normalize_bools (a @ ''.FALSE.'' @ b)) = a' @ ''.false.'' @ b'))
   \<and> (\<not> suffix ''.t'' a \<longrightarrow>
      (\<exists>a' b'. normalize_quotes (normalize_bools (a @ ''.'')) = a' @ ''.'' \<and>
               normalize_quotes (normalize_bools (''.'' @ b)) = ''.'' @ b' \<and>
               normalize_quotes (normalize_bools (a @ ''.t.t.'' @ b)) = a' @ ''.true.t.'' @ b'))
   \<and> (\<not> suffix ''.TRUE'' a \<longrightarrow>
      (\<exists>a' b'. normalize_quotes (normalize_bools (a @ ''.'')) = a' @ ''.'' \<and>
               normalize_quotes (normalize_bools (''.'' @ b)) = ''.'' @ b' \<and>
               normalize_quotes (normalize_bools (a @ ''.TRUE.TRUE.'' @ b)) = a' @ ''.true.TRUE.'' @ b'))
   \<and> (\<not> suffix ''.f'' a \<longrightarrow>
      (\<exists>a' b'. normalize_quotes (normalize_bools (a @ ''.'')) = a' @ ''.'' \<and>
               normalize_quotes (normalize_bools (''.'' @ b)) = ''.'' @ b' \<and>
               normalize_quotes (normalize_bools (a @ ''.f.f.'' @ b)) = a' @ ''.false.f.'' @ b'))
   \<and> (\<not> suffix ''.FALSE'' a \<longrightarrow>
      (\<exists>a' b'. normalize_quotes (normalize_bools (a @ ''.'')) = a' @ ''.'' \<and>
               normalize_quotes (normalize_bools (''.'' @ b)) = ''.'' @ b' \<and>
               normalize_quotes (normalize_bools (a @ ''.FALSE.FALSE.'' @ b)) = a' @ ''.false.FALSE.'' @ b'))
   \<and> normalize_quotes (normalize_bools (a @ [CHR 0x22] @ b))
        = normalize_quotes (normalize_bools a) @ [CHR 0x27] @ normalize_quotes (normalize_bools b)
   \<and> CHR 0x22 \<notin> set (normalize_quotes (normalize_bools v))"
proof -
  have c1: "\<not> suffix ''.t'' a \<and> \<not> prefix ''t.'' b \<longrightarrow>
      (\<exists>a' b'. normalize_quotes (normalize_bools (a @ ''.'')) = a' @ ''.'' \<and>
               normalize_quotes (normalize_bools (''.'' @ b)) = ''.'' @ b' \<and>
               normalize_quotes (normalize_bools (a @ ''.t.'' @ b)) = a' @ ''.true.'' @ b')"
  proof
    assume h: "\<not> suffix ''.t'' a \<and> \<not> prefix ''t.'' b"
    then have h1: "\<not> suffix ''.t'' a" and h2: "\<not> prefix ''t.'' b" by blast+
    show "\<exists>a' b'. normalize_quotes (normalize_bools (a @ ''.'')) = a' @ ''.'' \<and>
               normalize_quotes (normalize_bools (''.'' @ b)) = ''.'' @ b' \<and>
               normalize_quotes (normalize_bools (a @ ''.t.'' @ b)) = a' @ ''.true.'' @ b'"
      using bools_single_t [OF h1 h2] by (rule quote_around) simp
  qed
  have c2: "\<not> suffix ''.TRUE'' a \<and> \<not> prefix ''TRUE.'' b \<longrightarrow>
      (\<exists>a' b'. normalize_quotes (normalize_bools (a @ ''.'')) = a' @ ''.'' \<and>
               normalize_quotes (normalize_bools (''.'' @ b)) = ''.'' @ b' \<and>
               normalize_quotes (normalize_bools (a @ ''.TRUE.'' @ b)) = a' @ ''.true.'' @ b')"
  proof
    assume h: "\<not> suffix ''.TRUE'' a \<and> \<not> prefix ''TRUE.'' b"
    then have h1: "\<not> suffix ''.TRUE'' a" and h2: "\<not> prefix ''TRUE.'' b" by blast+
    show "\<exists>a' b'. normalize_quotes (normalize_bools (a @ ''.'')) = a' @ ''.'' \<and>
               normalize_quotes (normalize_bools (''.'' @ b)) = ''.'' @ b' \<and>
               normalize_quotes (normalize_bools (a @ ''.TRUE.'' @ b)) = a' @ ''.true.'' @ b'"
      using bools_single_TRUE [OF h1 h2] by (rule quote_around) simp
  qed
  have c3: "\<not> suffix ''.f'' a \<and> \<not> prefix ''f.'' b \<longrightarrow>
      (\<exists>a' b'. normalize_quotes (normalize_bools (a @ ''.'')) = a' @ ''.'' \<and>
               normalize_quotes (normalize_bools (''.'' @ b)) = ''.'' @ b' \<and>
               normalize_quotes (normalize_bools (a @ ''.f.'' @ b)) = a' @ ''.false.'' @ b')"
  proof
    assume h: "\<not> suffix ''.f'' a \<and> \<not> prefix ''f.'' b"
    then have h1: "\<not> suffix ''.f'' a" and h2: "\<not> prefix ''f.'' b" by blast+
    show "\<exists>a' b'. normalize_quotes (normalize_bools (a @ ''.'')) = a' @ ''.'' \<and>
               normalize_quotes (normalize_bools (''.'' @ b)) = ''.'' @ b' \<and>
               normalize_quotes (normalize_bools (a @ ''.f.'' @ b)) = a' @ ''.false.'' @ b'"
      using bools_single_f [OF h1 h2] by (rule quote_around) simp
  qed
  have c4: "\<not> suffix ''.FALSE'' a \<and> \<not> prefix ''FALSE.'' b \<longrightarrow>
      (\<exists>a' b'. normalize_quotes (normalize_bools (a @ ''.'')) = a' @ ''.'' \<and>
               normalize_quotes (normalize_bools (''.'' @ b)) = ''.'' @ b' \<and>
               normalize_quotes (normalize_bools (a @ ''.FALSE.'' @ b)) = a' @ ''.false.'' @ b')"
  proof
    assume h: "\<not> suffix ''.FALSE'' a \<and> \<not> prefix ''FALSE.'' b"
    then have h1: "\<not> suffix ''.FALSE'' a" and h2: "\<not> prefix ''FALSE.'' b" by blast+
    show "\<exists>a' b'. normalize_quotes (normalize_bools (a @ ''.'')) = a' @ ''.'' \<and>
               normalize_quotes (normalize_bools (''.'' @ b)) = ''.'' @ b' \<and>
               normalize_quotes (normalize_bools (a @ ''.FALSE.'' @ b)) = a' @ ''.false.'' @ b'"
      using bools_single_FALSE [OF h1 h2] by (rule quote_around) simp
  qed
  have c5: "\<not> suffix ''.t'' a \<longrightarrow>
      (\<exists>a' b'. normalize_quotes (normalize_bools (a @ ''.'')) = a' @ ''.'' \<and>
               normalize_quotes (normalize_bools (''.'' @ b)) = ''.'' @ b' \<and>
               normalize_quotes (normalize_bools (a @ ''.t.t.'' @ b)) = a' @ ''.true.t.'' @ b')"
  proof
    assume h: "\<not> suffix ''.t'' a"
    show "\<exists>a' b'. normalize_quotes (normalize_bools (a @ ''.'')) = a' @ ''.'' \<and>
               normalize_quotes (normalize_bools (''.'' @ b)) = ''.'' @ b' \<and>
               normalize_quotes (normalize_bools (a @ ''.t.t.'' @ b)) = a' @ ''.true.t.'' @ b'"
      using bools_double_t [OF h] by (rule quote_around) simp
  qed
  have c6: "\<not> suffix ''.TRUE'' a \<longrightarrow>
      (\<exists>a' b'. normalize_quotes (normalize_bools (a @ ''.'')) = a' @ ''.'' \<and>
               normalize_quotes (normalize_bools (''.'' @ b)) = ''.'' @ b' \<and>
               normalize_quotes (normalize_bools (a @ ''.TRUE.TRUE.'' @ b)) = a' @ ''.true.TRUE.'' @ b')"
  proof
    assume h: "\<not> suffix ''.TRUE'' a"
    show "\<exists>a' b'. normalize_quotes (normalize_bools (a @ ''.'')) = a' @ ''.'' \<and>
               normalize_quotes (normalize_bools (''.'' @ b)) = ''.'' @ b' \<and>
               normalize_quotes (normalize_bools (a @ ''.TRUE.TRUE.'' @ b)) = a' @ ''.true.TRUE.'' @ b'"
      using bools_double_TRUE [OF h] by (rule quote_around) simp
  qed
  have c7: "\<not> suffix ''.f'' a \<longrightarrow>
      (\<exists>a' b'. normalize_quotes (normalize_bools (a @ ''.'')) = a' @ ''.'' \<and>
               normalize_quotes (normalize_bools (''.'' @ b)) = ''.'' @ b' \<and>
               normalize_quotes (normalize_bools (a @ ''.f.f.'' @ b)) = a' @ ''.false.f.'' @ b')"
  proof
    assume h: "\<not> suffix ''.f'' a"
    show "\<exists>a' b'. normalize_quotes (normalize_bools (a @ ''.'')) = a' @ ''.'' \<and>
               normalize_quotes (normalize_bools (''.'' @ b)) = ''.'' @ b' \<and>
               normalize_quotes (normalize_bools (a @ ''.f.f.'' @ b)) = a' @ ''.false.f.'' @ b'"
      using bools_double_f [OF h] by (rule quote_around) simp
  qed
  have c8: "\<not> suffix ''.FALSE'' a \<longrightarrow>
      (\<exists>a' b'. normalize_quotes (normalize_bools (a @ ''.'')) = a' @ ''.'' \<and>
               normalize_quotes (normalize_bools (''.'' @ b)) = ''.'' @ b' \<and>
               normalize_quotes (normalize_bools (a @ ''.FALSE.FALSE.'' @ b)) = a' @ ''.false.FALSE.'' @ b')"
  proof
    assume h: "\<not> suffix ''.FALSE'' a"
    show "\<exists>a' b'. normalize_quotes (normalize_bools (a @ ''.'')) = a' @ ''.'' \<and>
               normalize_quotes (normalize_bools (''.'' @ b)) = ''.'' @ b' \<and>
               normalize_quotes (normalize_bools (a @ ''.FALSE.FALSE.'' @ b)) = a' @ ''.false.FALSE.'' @ b'"
      using bools_double_FALSE [OF h] by (rule quote_around) simp
  qed
  have Q: "normalize_quotes (normalize_bools (a @ [CHR 0x22] @ b))
        = normalize_quotes (normalize_bools a) @ [CHR 0x27] @ normalize_quotes (normalize_bools b)"
    by (simp add: normalize_bools_quote normalize_quotes_map)
  have N: "CHR 0x22 \<notin> set (normalize_quotes (normalize_bools v))"
    by (auto simp: normalize_quotes_map)
  show ?thesis by (intro conjI) (rule c1 c2 c3 c4 c5 c6 c7 c8 Q N)+
qed

theorem value_normalization_witness:
  "\<not> suffix ''.t'' ''x'' \<and> \<not> prefix ''t.'' ''f. y''
   \<and> normalize_quotes (normalize_bools (''x'' @ ''.t.'' @ ''f. y'')) = ''x.true.false. y''"
proof -
  have h: "\<not> suffix ''.t'' ''x'' \<and> \<not> prefix ''t.'' ''f. y''" by (simp add: suffix_def)
  from value_normalization [of "''x''" "''f. y''" "[]", THEN conjunct1, rule_format, OF h]
  obtain a' b' where
    a: "normalize_quotes (normalize_bools (''x'' @ ''.'')) = a' @ ''.''" and
    b: "normalize_quotes (normalize_bools (''.'' @ ''f. y'')) = ''.'' @ b'" and
    m: "normalize_quotes (normalize_bools (''x'' @ ''.t.'' @ ''f. y'')) = a' @ ''.true.'' @ b'"
    by blast
  have "normalize_quotes (normalize_bools (''x'' @ ''.'')) = ''x'' @ ''.''" by code_simp
  then have a': "a' = ''x''" unfolding a by simp
  have "normalize_quotes (normalize_bools (''.'' @ ''f. y'')) = ''.'' @ ''false. y''" by code_simp
  then have b': "b' = ''false. y''" unfolding b by simp
  have "normalize_quotes (normalize_bools (''x'' @ ''.t.'' @ ''f. y'')) = ''x.true.false. y''"
    unfolding m a' b' by simp
  with h show ?thesis by blast
qed

text \<open>
  The claim C6 as stated fails for two occurrences of the same literal that share a dot:
  in \<open>.t.t.\<close> the literal \<open>.t.\<close> occurs at offsets 0 and 2, \<^verbatim>\<open>str.replace\<close> replaces the
  first and goes on after it, and the second occurrence is still there in the result
  \<open>.true.t.\<close>.
\<close>

theorem overlapping_literals_counterexample:
  "normalize_quotes (normalize_bools (''.t'' @ ''.t.'' @ '''')) = ''.true'' @ ''.t.'' @ ''''
   \<and> format_line ''x = .t.t.'' 8 0 False False = Inr ''x       = .true.t.''"
proof -
  have "normalize_quotes (normalize_bools (''.t'' @ ''.t.'' @ '''')) = ''.true'' @ ''.t.'' @ ''''"
    by code_simp
  moreover have "format_line ''x = .t.t.'' 8 0 False False = Inr ''x       = .true.t.''"
    by code_simp
  ultimately show ?thesis by blast
qed



end
